theory Spec2Isabelle
  imports Main "HOL-Library.Word" "HOL-Library.Signed_Division"
begin

section \<open>The redis queue mover (tools/redis\_queue\_mover.cpp)\<close>

text \<open>
  The tool starts \<open>queues * threads\<close> move threads, one statistics thread and one signal
  thread. They share two globals, the flag \<open>g_stop\<close> and the counter \<open>g_num_moved\<close>,
  and, outside the process, the source redis, the destination redis and the destination
  file. Each thread is modelled as a small state machine: one step is one access to
  something shared (a read of \<open>g_stop\<close>, one redis command, one \<open>write\<close>, one atomic
  add), together with the thread-local computation that follows it. A schedule is the list
  of steps in the order the threads take them, each with the outcome the outside world
  gives to the call made in that step. Log lines are not modelled.
\<close>

subsection \<open>Command line arguments\<close>

text \<open>
  The arguments declared with \<open>INTEGER_ARG_DEFINE\<close> and \<open>STRING_ARG_DEFINE\<close> that the
  threads read. Integer arguments are C \<open>int\<close>s; \<open>valid_args\<close> states the ranges of
  their declarations (minimum and maximum of each \<open>INTEGER_ARG_DEFINE\<close>). Argument
  strings come from \<open>argv\<close> and so hold no NUL character: \<open>c_value()\<close> is the whole
  string.
\<close>

record args =
  queues :: int
  threads :: int
  dst_redis :: string
  dst_file :: string
  src_prefix :: string
  dst_prefix :: string
  src_only_prefix :: int
  dst_only_prefix :: int
  tick :: int
  stat_interval :: int
  retry_interval :: int
  batch :: int

definition valid_args :: "args \<Rightarrow> bool" where
  "valid_args a \<longleftrightarrow>
     1 \<le> queues a \<and> queues a \<le> 2019 \<and>
     1 \<le> threads a \<and> threads a \<le> 20 \<and>
     0 \<le> src_only_prefix a \<and> src_only_prefix a \<le> 1 \<and>
     0 \<le> dst_only_prefix a \<and> dst_only_prefix a \<le> 1 \<and>
     1 \<le> tick a \<and> tick a \<le> 10000000 \<and>
     1 \<le> stat_interval a \<and> stat_interval a \<le> 86400 \<and>
     1 \<le> retry_interval a \<and> retry_interval a \<le> 1000000 \<and>
     1 \<le> batch a \<and> batch a \<le> 100000"

subsection \<open>Key naming: \<open>get_src_key\<close>, \<open>get_dst_key\<close>\<close>

definition digit_char :: "nat \<Rightarrow> char" where
  "digit_char d = ''0123456789'' ! (d mod 10)"

fun dec_nat :: "nat \<Rightarrow> string" where
  "dec_nat n = (if n < 10 then [digit_char n] else dec_nat (n div 10) @ [digit_char (n mod 10)])"

declare dec_nat.simps [simp del]

definition dec_int :: "int \<Rightarrow> string" where
  \<comment> \<open>The conversion \<open>%d\<close> of printf.\<close>
  "dec_int i = (if i < 0 then CHR ''-'' # dec_nat (nat (- i)) else dec_nat (nat i))"

definition format_string_s_d :: "string \<Rightarrow> int \<Rightarrow> string" where
  \<comment> \<open>Modelled from the spec: \<open>mooon::utils::CStringUtils::format_string\<close> is not among the
      sources. With the format \<open>"%s%d"\<close> it gives the string followed by the decimal
      representation of the integer.\<close>
  "format_string_s_d s i = s @ dec_int i"

definition get_src_key :: "args \<Rightarrow> int \<Rightarrow> string" where
  "get_src_key a i =
     (if 1 = src_only_prefix a then src_prefix a else format_string_s_d (src_prefix a) i)"

definition get_dst_key :: "args \<Rightarrow> int \<Rightarrow> string" where
  "get_dst_key a i =
     (if 1 = dst_only_prefix a then dst_prefix a else format_string_s_d (dst_prefix a) i)"

subsection \<open>The outside world: redis lists and the destination file\<close>

text \<open>
  A redis list is written head first. \<open>RPOP\<close> takes the last element; the client's
  \<open>rpop\<close> returns false on an empty list. \<open>LPUSH key v1 ... vn\<close> puts the values at the
  head one after the other, so the last value pushed ends up first.
\<close>

definition redis_rpop :: "string list \<Rightarrow> (string \<times> string list) option" where
  "redis_rpop xs = (if xs = [] then None else Some (last xs, butlast xs))"

definition redis_lpush :: "string list \<Rightarrow> string list \<Rightarrow> string list" where
  "redis_lpush vs xs = fold (#) vs xs"

text \<open>
  The outcome the outside world gives to the call of a step: \<open>Ok\<close>, or \<open>Err\<close> (the
  redis client throws \<open>CRedisException\<close>; \<open>open\<close> or \<open>write\<close> meets an I/O error).
  A call that fails leaves the store and the file as they were.
\<close>

datatype resp = Ok | Err

datatype open_flag = O_RDONLY | O_WRONLY | O_RDWR

definition sys_write :: "open_flag option \<Rightarrow> resp \<Rightarrow> bool" where
  \<comment> \<open>\<open>write(2)\<close>: whether the bytes are written. It fails with EBADF on a descriptor that is
      not open for writing (\<open>None\<close> is the descriptor -1), and otherwise when the world
      refuses (a full disk, an I/O error).\<close>
  "sys_write fd r = (case fd of None \<Rightarrow> False | Some fl \<Rightarrow> fl \<noteq> O_RDONLY \<and> r = Ok)"

subsection \<open>State\<close>

datatype event =
    EvRpop nat string "string option"  \<comment> \<open>thread, key, the value popped (None: empty)\<close>
  | EvRpopErr nat string               \<comment> \<open>thread, key: the pop threw\<close>
  | EvLpush nat string "string list" bool  \<comment> \<open>thread, key, values, whether it succeeded\<close>
  | EvWrite nat string bool            \<comment> \<open>thread, bytes, whether they were written\<close>
  | EvSleep nat int                    \<comment> \<open>thread, milliseconds\<close>

text \<open>Where a move thread stands in \<open>move_thread_proc\<close>.\<close>

datatype pc =
    AtSetup          \<comment> \<open>before the first try block\<close>
  | AtWhile          \<comment> \<open>the test of \<open>while (!g_stop)\<close>\<close>
  | AtFor            \<comment> \<open>the test of the for loop\<close>
  | AtRpop           \<comment> \<open>before \<open>src_redis.rpop\<close>\<close>
  | AtWrite string   \<comment> \<open>before \<open>write\<close>, holding the value with its newline\<close>
  | AtStopFalse      \<comment> \<open>before \<open>g_stop = false\<close>\<close>
  | AtEmptyTest      \<comment> \<open>the test \<open>values.empty()\<close> after the for loop\<close>
  | AtLpush          \<comment> \<open>the test of \<open>while (!values.empty())\<close> and the push\<close>
  | AtAdd            \<comment> \<open>before the atomic add\<close>
  | Exited           \<comment> \<open>the thread has returned\<close>

record mover =
  m_pc :: pc
  m_values :: "string list"
  m_k :: int
  m_dst_redis :: bool
  m_dst_fd :: "open_flag option"
  m_num_moved :: "32 word"
  m_old_num_moved :: "32 word"

datatype stat_pc = StatSetup | StatWhile | StatSample | StatExited

datatype signal_pc = SigWhile | SigHandle | SigExited

record sys =
  g_stop :: bool
  g_num_moved :: "64 word"
  src_db :: "string \<Rightarrow> string list"
  dst_db :: "string \<Rightarrow> string list"
  file_data :: string
  movers :: "mover list"
  st_pc :: stat_pc
  st_old_num_moved :: "64 word"
  sg_pc :: signal_pc
  trace :: "event list"

definition atomic8_add :: "32 word \<Rightarrow> sys \<Rightarrow> sys" where
  \<comment> \<open>Modelled from the spec: the type \<open>atomic8_t\<close> and the operations \<open>atomic8_set\<close>,
      \<open>atomic8_add\<close>, \<open>atomic8_read\<close> of \<open>mooon/sys/atomic.h\<close> are not among the sources.
      The counter (\<open>atomic8_t\<close>, on a 64-bit build) is a 64-bit value; the add is atomic
      and wraps around. The summand is the thread's \<open>uint32_t\<close>, widened.\<close>
  "atomic8_add n s = s\<lparr>g_num_moved := g_num_moved s + ucast n\<rparr>"

definition emit :: "event \<Rightarrow> sys \<Rightarrow> sys" where
  "emit e s = s\<lparr>trace := trace s @ [e]\<rparr>"

definition put :: "nat \<Rightarrow> mover \<Rightarrow> sys \<Rightarrow> sys" where
  "put i m s = s\<lparr>movers := (movers s)[i := m]\<rparr>"

definition init_mover :: mover where
  "init_mover = \<lparr>m_pc = AtSetup, m_values = [], m_k = 0, m_dst_redis = False,
     m_dst_fd = None, m_num_moved = 0, m_old_num_moved = 0\<rparr>"

definition init_sys :: "args \<Rightarrow> (string \<Rightarrow> string list) \<Rightarrow> (string \<Rightarrow> string list) \<Rightarrow> string \<Rightarrow> sys" where
  \<comment> \<open>\<open>main\<close> after the arguments are checked: the counter is set to 0 and the threads are
      created, \<open>queues * threads\<close> of them move threads.\<close>
  "init_sys a src dst file = \<lparr>g_stop = False, g_num_moved = 0, src_db = src, dst_db = dst,
     file_data = file, movers = replicate (nat (queues a * threads a)) init_mover,
     st_pc = StatSetup, st_old_num_moved = 0, sg_pc = SigWhile, trace = []\<rparr>"

subsection \<open>One step of a move thread: \<open>move_thread_proc\<close>\<close>

definition step_setup :: "args \<Rightarrow> nat \<Rightarrow> resp \<Rightarrow> mover \<Rightarrow> sys \<Rightarrow> sys" where
  \<comment> \<open>The first try block: connect to the destination redis, or
      \<open>open(dst_file, O_RDONLY)\<close>. On an exception the thread returns. The source client,
      built before the try block, is taken to be there.\<close>
  "step_setup a i r m s =
     (if dst_redis a \<noteq> [] then
        (case r of
           Ok \<Rightarrow> put i (m\<lparr>m_dst_redis := True, m_pc := AtWhile\<rparr>) s
         | Err \<Rightarrow> put i (m\<lparr>m_pc := Exited\<rparr>) s)
      else
        (case r of
           Ok \<Rightarrow> put i (m\<lparr>m_dst_fd := Some O_RDONLY, m_pc := AtWhile\<rparr>) s
         | Err \<Rightarrow> put i (m\<lparr>m_pc := Exited\<rparr>) s))"

definition step_while :: "nat \<Rightarrow> mover \<Rightarrow> sys \<Rightarrow> sys" where
  \<comment> \<open>\<open>while (!g_stop)\<close>: into the body (\<open>values.clear()\<close>, \<open>k = 0\<close>), or out of the loop to
      \<open>close(dst_fd)\<close> and the end of the thread.\<close>
  "step_while i m s =
     (if \<not> g_stop s then put i (m\<lparr>m_values := [], m_k := 0, m_pc := AtFor\<rparr>) s
      else put i (m\<lparr>m_dst_fd := None, m_pc := Exited\<rparr>) s)"

definition step_for :: "args \<Rightarrow> nat \<Rightarrow> mover \<Rightarrow> sys \<Rightarrow> sys" where
  "step_for a i m s =
     (if \<not> g_stop s \<and> m_k m < batch a then put i (m\<lparr>m_pc := AtRpop\<rparr>) s
      else put i (m\<lparr>m_pc := AtEmptyTest\<rparr>) s)"

definition step_rpop :: "args \<Rightarrow> nat \<Rightarrow> resp \<Rightarrow> mover \<Rightarrow> sys \<Rightarrow> sys" where
  "step_rpop a i r m s =
     (let src_key = get_src_key a (int i smod queues a) in
      case r of
        Err \<Rightarrow> emit (EvRpopErr i src_key) (put i (m\<lparr>m_k := m_k m + 1, m_pc := AtFor\<rparr>) s)
      | Ok \<Rightarrow>
         (case redis_rpop (src_db s src_key) of
            None \<Rightarrow> emit (EvRpop i src_key None) (put i (m\<lparr>m_pc := AtEmptyTest\<rparr>) s)
          | Some (v, rest) \<Rightarrow>
              let s' = emit (EvRpop i src_key (Some v)) (s\<lparr>src_db := (src_db s)(src_key := rest)\<rparr>)
              in if dst_redis a \<noteq> []
                 then put i (m\<lparr>m_values := m_values m @ [v], m_k := m_k m + 1, m_pc := AtFor\<rparr>) s'
                 else put i (m\<lparr>m_pc := AtWrite (v @ [CHR 0x0A])\<rparr>) s'))"

definition step_write :: "nat \<Rightarrow> resp \<Rightarrow> string \<Rightarrow> mover \<Rightarrow> sys \<Rightarrow> sys" where
  "step_write i r v m s =
     (if sys_write (m_dst_fd m) r
      then emit (EvWrite i v True)
             (put i (m\<lparr>m_k := m_k m + 1, m_pc := AtFor\<rparr>) (s\<lparr>file_data := file_data s @ v\<rparr>))
      else emit (EvWrite i v False) (put i (m\<lparr>m_pc := AtStopFalse\<rparr>) s))"

definition step_stop_false :: "nat \<Rightarrow> mover \<Rightarrow> sys \<Rightarrow> sys" where
  \<comment> \<open>\<open>g_stop = false; break;\<close>\<close>
  "step_stop_false i m s = put i (m\<lparr>m_pc := AtEmptyTest\<rparr>) (s\<lparr>g_stop := False\<rparr>)"

definition step_empty_test :: "args \<Rightarrow> nat \<Rightarrow> mover \<Rightarrow> sys \<Rightarrow> sys" where
  \<comment> \<open>\<open>if (values.empty()) { millisleep(retry_interval); continue; }\<close>\<close>
  "step_empty_test a i m s =
     (if m_values m = [] then emit (EvSleep i (retry_interval a)) (put i (m\<lparr>m_pc := AtWhile\<rparr>) s)
      else put i (m\<lparr>m_pc := AtLpush\<rparr>) s)"

definition step_lpush :: "args \<Rightarrow> nat \<Rightarrow> resp \<Rightarrow> mover \<Rightarrow> sys \<Rightarrow> sys" where
  \<comment> \<open>\<open>while (!values.empty())\<close>: push when there is a destination redis; on an exception
      sleep and stay in the loop.\<close>
  "step_lpush a i r m s =
     (let dst_key = get_dst_key a (int i smod queues a) in
      if m_values m = [] then put i (m\<lparr>m_pc := AtWhile\<rparr>) s
      else if m_dst_redis m then
        (case r of
           Ok \<Rightarrow> emit (EvLpush i dst_key (m_values m) True)
                   (put i (m\<lparr>m_pc := AtAdd\<rparr>)
                      (s\<lparr>dst_db := (dst_db s)(dst_key := redis_lpush (m_values m) (dst_db s dst_key))\<rparr>))
         | Err \<Rightarrow> emit (EvSleep i (retry_interval a))
                   (emit (EvLpush i dst_key (m_values m) False) s))
      else put i (m\<lparr>m_pc := AtAdd\<rparr>) s)"

definition step_add :: "args \<Rightarrow> nat \<Rightarrow> mover \<Rightarrow> sys \<Rightarrow> sys" where
  \<comment> \<open>The atomic add of \<open>static_cast<uint32_t>(values.size())\<close>, the thread's own count and
      its tick, and the \<open>break\<close> out of the push loop.\<close>
  "step_add a i m s =
     (let num_moved_batch = (of_nat (length (m_values m)) :: 32 word);
          num_moved = m_num_moved m + num_moved_batch;
          old_num_moved = (if num_moved - m_old_num_moved m \<ge> (of_int (tick a) :: 32 word)
                           then num_moved else m_old_num_moved m)
      in put i (m\<lparr>m_num_moved := num_moved, m_old_num_moved := old_num_moved, m_pc := AtWhile\<rparr>)
           (atomic8_add num_moved_batch s))"

definition move_step :: "args \<Rightarrow> nat \<Rightarrow> resp \<Rightarrow> sys \<Rightarrow> sys" where
  \<comment> \<open>Thread \<open>i\<close> takes its next step. A thread that does not exist or has returned takes
      none.\<close>
  "move_step a i r s =
     (if i < length (movers s) then
        (let m = movers s ! i in
         case m_pc m of
           AtSetup \<Rightarrow> step_setup a i r m s
         | AtWhile \<Rightarrow> step_while i m s
         | AtFor \<Rightarrow> step_for a i m s
         | AtRpop \<Rightarrow> step_rpop a i r m s
         | AtWrite v \<Rightarrow> step_write i r v m s
         | AtStopFalse \<Rightarrow> step_stop_false i m s
         | AtEmptyTest \<Rightarrow> step_empty_test a i m s
         | AtLpush \<Rightarrow> step_lpush a i r m s
         | AtAdd \<Rightarrow> step_add a i m s
         | Exited \<Rightarrow> s)
      else s)"

subsection \<open>The signal thread and the statistics thread\<close>

definition on_terminated :: "sys \<Rightarrow> sys" where
  "on_terminated s = s\<lparr>g_stop := True\<rparr>"

definition signal_step :: "bool \<Rightarrow> sys \<Rightarrow> sys" where
  \<comment> \<open>Modelled from the spec: \<open>CSignalHandler::handle\<close> is not among the sources; it waits
      for a signal and calls \<open>on_terminated\<close> when the signal asks the process to
      terminate (the argument of the step). The loop around it is the source's
      \<open>signal_thread_proc\<close>: \<open>while (!g_stop) handle(&on_terminated, ...)\<close>.\<close>
  "signal_step term s =
     (case sg_pc s of
        SigWhile \<Rightarrow> if \<not> g_stop s then s\<lparr>sg_pc := SigHandle\<rparr> else s\<lparr>sg_pc := SigExited\<rparr>
      | SigHandle \<Rightarrow> (if term then on_terminated s else s)\<lparr>sg_pc := SigWhile\<rparr>
      | SigExited \<Rightarrow> s)"

definition stat_step :: "resp \<Rightarrow> sys \<Rightarrow> sys" where
  \<comment> \<open>\<open>stat_thread_proc\<close>: create the logger (the thread returns if that throws), then while
      \<open>g_stop\<close> is false sleep, read the counter and remember it. The log line is not
      modelled.\<close>
  "stat_step r s =
     (case st_pc s of
        StatSetup \<Rightarrow> (case r of Ok \<Rightarrow> s\<lparr>st_pc := StatWhile\<rparr> | Err \<Rightarrow> s\<lparr>st_pc := StatExited\<rparr>)
      | StatWhile \<Rightarrow> if \<not> g_stop s then s\<lparr>st_pc := StatSample\<rparr> else s\<lparr>st_pc := StatExited\<rparr>
      | StatSample \<Rightarrow> s\<lparr>st_old_num_moved := g_num_moved s, st_pc := StatWhile\<rparr>
      | StatExited \<Rightarrow> s)"

subsection \<open>Schedules\<close>

datatype action = Move nat resp | Stat resp | Signal bool

fun sys_step :: "args \<Rightarrow> action \<Rightarrow> sys \<Rightarrow> sys" where
  "sys_step a (Move i r) s = move_step a i r s"
| "sys_step a (Stat r) s = stat_step r s"
| "sys_step a (Signal term) s = signal_step term s"

definition run :: "args \<Rightarrow> action list \<Rightarrow> sys \<Rightarrow> sys" where
  "run a sched s = fold (sys_step a) sched s"

section \<open>What a run shows\<close>

subsection \<open>Reading a decimal representation back\<close>

definition digit_val :: "char \<Rightarrow> nat" where
  "digit_val c = of_char c - 48"

definition read_dec :: "string \<Rightarrow> nat" where
  "read_dec cs = foldl (\<lambda>n c. 10 * n + digit_val c) 0 cs"

subsection \<open>Deliveries, and batches pushed but not yet counted\<close>

fun ev_delivered :: "event \<Rightarrow> nat" where
  "ev_delivered (EvLpush i k vs ok) = (if ok then length vs else 0)"
| "ev_delivered (EvWrite i v ok) = (if ok then 1 else 0)"
| "ev_delivered e = 0"

definition delivered :: "event list \<Rightarrow> nat" where
  \<comment> \<open>The number of values that reached a destination: those of the pushes that succeeded
      and the lines written.\<close>
  "delivered tr = sum_list (map ev_delivered tr)"

definition pending :: "mover \<Rightarrow> nat" where
  \<comment> \<open>Between its push and its atomic add a thread holds a batch that is delivered and not
      yet counted.\<close>
  "pending m = (if m_pc m = AtAdd then length (m_values m) else 0)"

definition pending_total :: "sys \<Rightarrow> nat" where
  "pending_total s = sum_list (map pending (movers s))"

definition counter_ok :: "sys \<Rightarrow> bool" where
  "counter_ok s \<longleftrightarrow> pending_total s \<le> delivered (trace s) \<and>
     g_num_moved s = of_nat (delivered (trace s) - pending_total s)"

fun ev_written :: "event \<Rightarrow> bool" where
  "ev_written (EvWrite i v ok) = ok"
| "ev_written e = False"

subsection \<open>What one thread popped, pushed and holds\<close>

fun ev_popped :: "nat \<Rightarrow> event \<Rightarrow> string list" where
  "ev_popped i (EvRpop j k (Some v)) = (if j = i then [v] else [])"
| "ev_popped i e = []"

fun ev_pushed :: "nat \<Rightarrow> event \<Rightarrow> string list" where
  "ev_pushed i (EvLpush j k vs ok) = (if j = i \<and> ok then vs else [])"
| "ev_pushed i e = []"

definition popped_by :: "nat \<Rightarrow> event list \<Rightarrow> string list" where
  "popped_by i tr = concat (map (ev_popped i) tr)"

definition pushed_by :: "nat \<Rightarrow> event list \<Rightarrow> string list" where
  "pushed_by i tr = concat (map (ev_pushed i) tr)"

fun holding :: "pc \<Rightarrow> bool" where
  "holding AtFor = True"
| "holding AtRpop = True"
| "holding AtEmptyTest = True"
| "holding AtLpush = True"
| "holding p = False"

definition held :: "mover \<Rightarrow> string list" where
  \<comment> \<open>The batch a thread has popped and not yet pushed.\<close>
  "held m = (if holding (m_pc m) then m_values m else [])"

definition batches_ok :: "sys \<Rightarrow> bool" where
  "batches_ok s \<longleftrightarrow>
     (\<forall>i < length (movers s). popped_by i (trace s) = pushed_by i (trace s) @ held (movers s ! i))"

definition retry_events :: "args \<Rightarrow> nat \<Rightarrow> string list \<Rightarrow> event list" where
  \<comment> \<open>What one failed push leaves in the trace: the push and the sleep after it.\<close>
  "retry_events a i vs =
     [EvLpush i (get_dst_key a (int i smod queues a)) vs False, EvSleep i (retry_interval a)]"

fun pop_order :: "nat \<Rightarrow> string list \<Rightarrow> string list" where
  \<comment> \<open>The values the next \<open>n\<close> pops take from a list, in the order they are taken.\<close>
  "pop_order 0 xs = []"
| "pop_order (Suc n) xs =
     (case redis_rpop xs of None \<Rightarrow> [] | Some (v, rest) \<Rightarrow> v # pop_order n rest)"

subsection \<open>Facts that hold of every thread in every run\<close>

fun at_write :: "pc \<Rightarrow> bool" where
  "at_write (AtWrite v) = True"
| "at_write p = False"

definition mover_ok :: "args \<Rightarrow> mover \<Rightarrow> bool" where
  "mover_ok a m \<longleftrightarrow>
     int (length (m_values m)) \<le> m_k m \<and> m_k m \<le> max 0 (batch a) \<and>
     (m_pc m = AtRpop \<or> at_write (m_pc m) \<longrightarrow> m_k m < batch a) \<and>
     (m_dst_fd m = None \<or> m_dst_fd m = Some O_RDONLY) \<and>
     (if dst_redis a \<noteq> []
      then (m_pc m \<noteq> AtSetup \<and> m_pc m \<noteq> Exited \<longrightarrow> m_dst_redis m) \<and>
           \<not> at_write (m_pc m) \<and> m_pc m \<noteq> AtStopFalse
      else m_values m = [] \<and> \<not> m_dst_redis m \<and>
           (m_pc m \<noteq> AtSetup \<and> m_pc m \<noteq> Exited \<longrightarrow> m_dst_fd m = Some O_RDONLY))"

definition movers_ok :: "args \<Rightarrow> sys \<Rightarrow> bool" where
  "movers_ok a s \<longleftrightarrow> (\<forall>m \<in> set (movers s). mover_ok a m)"

definition never_written :: "string \<Rightarrow> sys \<Rightarrow> bool" where
  "never_written file s \<longleftrightarrow> file_data s = file \<and> (\<forall>e \<in> set (trace s). \<not> ev_written e)"

definition nothing_delivered :: "sys \<Rightarrow> bool" where
  "nothing_delivered s \<longleftrightarrow> (\<forall>e \<in> set (trace s). ev_delivered e = 0)"

subsection \<open>Two concrete runs\<close>

text \<open>
  One queue, one thread, batches of two, a destination redis; the source queue holds
  \<open>a\<close>, \<open>b\<close>, \<open>c\<close>, head first, so the pops take \<open>c\<close>, \<open>b\<close>, \<open>a\<close>.
\<close>

definition scenario_args :: args where
  "scenario_args = \<lparr>queues = 1, threads = 1, dst_redis = ''127.0.0.1:6381'', dst_file = [],
     src_prefix = ''src:'', dst_prefix = ''dst:'', src_only_prefix = 0, dst_only_prefix = 0,
     tick = 10000, stat_interval = 2, retry_interval = 100, batch = 2\<rparr>"

definition scenario_src :: "string \<Rightarrow> string list" where
  "scenario_src = (\<lambda>k. [])(''src:0'' := [''a'', ''b'', ''c''])"

definition scenario_init :: sys where
  "scenario_init = init_sys scenario_args scenario_src (\<lambda>k. []) []"

text \<open>
  The thread has set up, entered its loop and popped \<open>c\<close>; then the signal thread
  receives a termination signal.
\<close>

definition stopped_mid_batch :: sys where
  "stopped_mid_batch =
     run scenario_args [Move 0 Ok, Move 0 Ok, Move 0 Ok, Move 0 Ok, Signal False, Signal True]
       scenario_init"

text \<open>From there the thread leaves the for loop and reaches its push loop.\<close>

definition stopped_in_push_loop :: sys where
  "stopped_in_push_loop = run scenario_args [Move 0 Ok, Move 0 Ok] stopped_mid_batch"

text \<open>The same source with no destination redis: the values go to a file.\<close>

definition file_args :: args where
  "file_args = scenario_args\<lparr>dst_redis := [], dst_file := ''/home/mooon/mooon.data''\<rparr>"

definition file_init :: sys where
  "file_init = init_sys file_args scenario_src (\<lambda>k. []) []"

section \<open>Properties\<close>

subsection \<open>Running a schedule\<close>

lemma run_Nil: "run a [] s = s"
  by (simp add: run_def)

lemma run_Cons: "run a (x # xs) s = run a xs (sys_step a x s)"
  by (simp add: run_def)

lemma run_append: "run a (xs @ ys) s = run a ys (run a xs s)"
  by (simp add: run_def)

lemma replicate_numeral_unfold: "replicate (numeral k) x = x # replicate (pred_numeral k) x"
  by (simp add: numeral_eq_Suc)

lemma movers_put [simp]: "movers (put i m s) = (movers s)[i := m]"
  by (simp add: put_def)

lemma movers_emit [simp]: "movers (emit e s) = movers s"
  by (simp add: emit_def)

lemma trace_put [simp]: "trace (put i m s) = trace s"
  by (simp add: put_def)

lemma trace_emit [simp]: "trace (emit e s) = trace s @ [e]"
  by (simp add: emit_def)

lemma g_num_moved_put [simp]: "g_num_moved (put i m s) = g_num_moved s"
  by (simp add: put_def)

lemma g_num_moved_emit [simp]: "g_num_moved (emit e s) = g_num_moved s"
  by (simp add: emit_def)

lemma file_data_put [simp]: "file_data (put i m s) = file_data s"
  by (simp add: put_def)

lemma file_data_emit [simp]: "file_data (emit e s) = file_data s"
  by (simp add: emit_def)

subsection \<open>Key naming\<close>

lemma dec_nat_0: "dec_nat 0 = ''0''"
  by (simp add: dec_nat.simps digit_char_def)

lemma dec_nat_2: "dec_nat 2 = ''2''"
  by (simp add: dec_nat.simps digit_char_def)

lemma digit_val_digit_char: "d < 10 \<Longrightarrow> digit_val (digit_char d) = d"
proof -
  assume "d < 10"
  then have "d \<in> {0, 1, 2, 3, 4, 5, 6, 7, 8, 9}" by auto
  then show ?thesis by (auto simp: digit_val_def digit_char_def)
qed

lemma read_dec_dec_nat: "read_dec (dec_nat n) = n"
proof (induction n rule: dec_nat.induct)
  case (1 n)
  show ?case
  proof (cases "n < 10")
    case True
    then show ?thesis
      by (simp add: dec_nat.simps[of n] read_dec_def digit_val_digit_char)
  next
    case False
    with 1 have "read_dec (dec_nat (n div 10)) = n div 10" by simp
    with False show ?thesis
      by (simp add: dec_nat.simps[of n] read_dec_def digit_val_digit_char)
  qed
qed

text \<open>
  C9. The key of a queue is the prefix alone when the only-prefix argument is 1, whatever
  the index, and otherwise the prefix followed by the decimal representation of the index
  (a minus sign for a negative index, then digits that read back as the number). The
  function is total and depends on nothing but the arguments. With the prefix \<open>mooon:\<close>
  and the index 2 the key is \<open>mooon:2\<close>; with only-prefix set it is \<open>mooon:\<close>. The
  destination key is named the same way.
\<close>

theorem get_key_naming:
  "get_src_key a i = (if src_only_prefix a = 1 then src_prefix a else src_prefix a @ dec_int i)
   \<and> get_dst_key a i = (if dst_only_prefix a = 1 then dst_prefix a else dst_prefix a @ dec_int i)
   \<and> dec_int (int n) = dec_nat n \<and> dec_int (- int (Suc n)) = CHR ''-'' # dec_nat (Suc n)
   \<and> read_dec (dec_nat n) = n
   \<and> get_src_key (a\<lparr>src_only_prefix := 0, src_prefix := ''mooon:''\<rparr>) 2 = ''mooon:2''
   \<and> get_src_key (a\<lparr>src_only_prefix := 1, src_prefix := ''mooon:''\<rparr>) i = ''mooon:''"
proof -
  have "nat (int n + 1) = Suc n" by simp
  then show ?thesis
    by (simp add: get_src_key_def get_dst_key_def format_string_s_d_def dec_int_def dec_nat_2
          read_dec_dec_nat)
qed

subsection \<open>Every thread in every run\<close>

lemma movers_ok_put: "movers_ok a s \<Longrightarrow> mover_ok a m' \<Longrightarrow> movers_ok a (put i m' s)"
  unfolding movers_ok_def put_def using set_update_subset_insert[of "movers s" i m'] by auto

lemma movers_ok_emit [simp]: "movers_ok a (emit e s) = movers_ok a s"
  by (simp add: movers_ok_def emit_def)

lemma movers_ok_upd [simp]:
  "movers_ok a (s\<lparr>src_db := x\<rparr>) = movers_ok a s"
  "movers_ok a (s\<lparr>dst_db := y\<rparr>) = movers_ok a s"
  "movers_ok a (s\<lparr>file_data := z\<rparr>) = movers_ok a s"
  "movers_ok a (s\<lparr>g_stop := b\<rparr>) = movers_ok a s"
  "movers_ok a (s\<lparr>g_num_moved := c\<rparr>) = movers_ok a s"
  "movers_ok a (s\<lparr>st_pc := p\<rparr>) = movers_ok a s"
  "movers_ok a (s\<lparr>sg_pc := q\<rparr>) = movers_ok a s"
  "movers_ok a (s\<lparr>st_old_num_moved := c\<rparr>) = movers_ok a s"
  by (simp_all add: movers_ok_def)

lemma step_setup_ok:
  "movers_ok a s \<Longrightarrow> mover_ok a m \<Longrightarrow> m_pc m = AtSetup \<Longrightarrow> movers_ok a (step_setup a i r m s)"
  by (cases r) (simp_all add: step_setup_def movers_ok_put mover_ok_def)

lemma step_while_ok:
  "movers_ok a s \<Longrightarrow> mover_ok a m \<Longrightarrow> m_pc m = AtWhile \<Longrightarrow> movers_ok a (step_while i m s)"
  by (simp add: step_while_def movers_ok_put mover_ok_def)

lemma step_for_ok:
  "movers_ok a s \<Longrightarrow> mover_ok a m \<Longrightarrow> m_pc m = AtFor \<Longrightarrow> movers_ok a (step_for a i m s)"
  by (simp add: step_for_def movers_ok_put mover_ok_def)

lemma step_rpop_ok:
  "movers_ok a s \<Longrightarrow> mover_ok a m \<Longrightarrow> m_pc m = AtRpop \<Longrightarrow> movers_ok a (step_rpop a i r m s)"
  by (cases r)
     (simp_all add: step_rpop_def Let_def movers_ok_put mover_ok_def split: option.split)

lemma step_write_ok:
  "movers_ok a s \<Longrightarrow> mover_ok a m \<Longrightarrow> m_pc m = AtWrite v \<Longrightarrow> movers_ok a (step_write i r v m s)"
  by (auto simp: step_write_def mover_ok_def intro!: movers_ok_put split: if_splits)

lemma step_stop_false_ok:
  "movers_ok a s \<Longrightarrow> mover_ok a m \<Longrightarrow> m_pc m = AtStopFalse \<Longrightarrow>
   movers_ok a (step_stop_false i m s)"
  by (simp add: step_stop_false_def movers_ok_put mover_ok_def)

lemma step_empty_test_ok:
  "movers_ok a s \<Longrightarrow> mover_ok a m \<Longrightarrow> m_pc m = AtEmptyTest \<Longrightarrow>
   movers_ok a (step_empty_test a i m s)"
  by (simp add: step_empty_test_def movers_ok_put mover_ok_def)

lemma step_lpush_ok:
  "movers_ok a s \<Longrightarrow> mover_ok a m \<Longrightarrow> m_pc m = AtLpush \<Longrightarrow> movers_ok a (step_lpush a i r m s)"
  by (cases r)
     (auto simp: step_lpush_def Let_def mover_ok_def intro!: movers_ok_put split: if_splits)

lemma step_add_ok:
  "movers_ok a s \<Longrightarrow> mover_ok a m \<Longrightarrow> m_pc m = AtAdd \<Longrightarrow> movers_ok a (step_add a i m s)"
  by (simp add: step_add_def Let_def atomic8_add_def movers_ok_put mover_ok_def)

lemma move_step_movers_ok:
  assumes "movers_ok a s"
  shows "movers_ok a (move_step a i r s)"
proof (cases "i < length (movers s)")
  case False
  with assms show ?thesis by (simp add: move_step_def)
next
  case True
  with assms have ok: "mover_ok a (movers s ! i)"
    by (simp add: movers_ok_def)
  show ?thesis
    using assms ok True
    by (cases "m_pc (movers s ! i)")
       (simp_all add: move_step_def step_setup_ok step_while_ok step_for_ok step_rpop_ok
          step_write_ok step_stop_false_ok step_empty_test_ok step_lpush_ok step_add_ok)
qed

lemma sys_step_movers_ok: "movers_ok a s \<Longrightarrow> movers_ok a (sys_step a act s)"
  by (cases act)
     (simp_all add: move_step_movers_ok stat_step_def signal_step_def on_terminated_def
        split: stat_pc.split signal_pc.split resp.split)

lemma run_movers_ok: "movers_ok a s \<Longrightarrow> movers_ok a (run a sched s)"
  by (induction sched arbitrary: s) (simp_all add: run_Nil run_Cons sys_step_movers_ok)

lemma init_movers_ok: "movers_ok a (init_sys a src dst file)"
  by (simp add: movers_ok_def init_sys_def mover_ok_def init_mover_def)

lemma reachable_mover_ok:
  "i < length (movers (run a sched (init_sys a src dst file))) \<Longrightarrow>
   mover_ok a (movers (run a sched (init_sys a src dst file)) ! i)"
  using run_movers_ok[OF init_movers_ok, of a sched src dst "file"]
  by (simp add: movers_ok_def)

subsection \<open>Evaluating concrete runs\<close>

lemmas eval_defs = move_step_def step_setup_def step_while_def step_for_def step_rpop_def
  step_write_def step_stop_false_def step_empty_test_def step_lpush_def step_add_def
  signal_step_def stat_step_def on_terminated_def
  put_def emit_def atomic8_add_def redis_rpop_def redis_lpush_def sys_write_def
  get_src_key_def get_dst_key_def format_string_s_d_def dec_int_def dec_nat_0 smod_int_alt_def
  run_Nil run_Cons run_append replicate_numeral_unfold Let_def
  init_sys_def init_mover_def scenario_args_def scenario_src_def scenario_init_def
  file_args_def file_init_def

lemma scenario_args_valid: "valid_args scenario_args"
  by (simp add: valid_args_def scenario_args_def)

lemma scenario_drained_trace:
  "trace (run scenario_args (replicate 22 (Move 0 Ok)) scenario_init) =
     [EvRpop 0 ''src:0'' (Some ''c''), EvRpop 0 ''src:0'' (Some ''b''),
      EvLpush 0 ''dst:0'' [''c'', ''b''] True,
      EvRpop 0 ''src:0'' (Some ''a''), EvRpop 0 ''src:0'' None,
      EvLpush 0 ''dst:0'' [''a''] True,
      EvRpop 0 ''src:0'' None, EvSleep 0 100]"
  by (simp add: eval_defs)

lemma scenario_drained_pc:
  "m_pc (movers (run scenario_args (replicate 22 (Move 0 Ok)) scenario_init) ! 0) = AtWhile"
  by (simp add: eval_defs)

lemma scenario_drained_pending:
  "pending_total (run scenario_args (replicate 22 (Move 0 Ok)) scenario_init) = 0"
  by (simp add: pending_total_def pending_def eval_defs)

subsection \<open>The destination file\<close>

lemma never_written_put [simp]: "never_written f (put i m s) = never_written f s"
  by (simp add: never_written_def)

lemma never_written_emit [simp]:
  "never_written f (emit e s) = (never_written f s \<and> \<not> ev_written e)"
  by (auto simp: never_written_def emit_def)

lemma never_written_upd [simp]:
  "never_written f (s\<lparr>src_db := x\<rparr>) = never_written f s"
  "never_written f (s\<lparr>dst_db := y\<rparr>) = never_written f s"
  "never_written f (s\<lparr>g_stop := b\<rparr>) = never_written f s"
  "never_written f (s\<lparr>g_num_moved := c\<rparr>) = never_written f s"
  "never_written f (s\<lparr>st_pc := p\<rparr>) = never_written f s"
  "never_written f (s\<lparr>sg_pc := q\<rparr>) = never_written f s"
  "never_written f (s\<lparr>st_old_num_moved := c\<rparr>) = never_written f s"
  by (simp_all add: never_written_def)

lemma read_only_write_fails:
  "m_dst_fd m = None \<or> m_dst_fd m = Some O_RDONLY \<Longrightarrow> \<not> sys_write (m_dst_fd m) r"
  by (auto simp: sys_write_def)

lemma step_write_read_only:
  "m_dst_fd m = None \<or> m_dst_fd m = Some O_RDONLY \<Longrightarrow>
   step_write i r v m s = emit (EvWrite i v False) (put i (m\<lparr>m_pc := AtStopFalse\<rparr>) s)"
  by (simp add: step_write_def read_only_write_fails)

lemma move_step_never_written:
  assumes "movers_ok a s" "never_written f s"
  shows "never_written f (move_step a i r s)"
proof (cases "i < length (movers s)")
  case False
  with assms show ?thesis by (simp add: move_step_def)
next
  case True
  with assms have "mover_ok a (movers s ! i)"
    by (simp add: movers_ok_def)
  then have ro: "m_dst_fd (movers s ! i) = None \<or> m_dst_fd (movers s ! i) = Some O_RDONLY"
    by (simp add: mover_ok_def)
  show ?thesis
  proof (cases "m_pc (movers s ! i)")
    case (AtWrite v)
    with assms(2) True ro show ?thesis
      by (simp add: move_step_def step_write_read_only)
  next
    case AtRpop
    with assms(2) True show ?thesis
      by (cases r) (simp_all add: move_step_def step_rpop_def Let_def split: option.split)
  next
    case AtLpush
    with assms(2) True show ?thesis
      by (cases r) (simp_all add: move_step_def step_lpush_def Let_def)
  next
    case AtSetup
    with assms(2) True show ?thesis
      by (cases r) (simp_all add: move_step_def step_setup_def Let_def)
  qed (use assms(2) True in \<open>simp_all add: move_step_def step_while_def step_for_def
          step_stop_false_def step_empty_test_def step_add_def atomic8_add_def Let_def\<close>)
qed

lemma sys_step_never_written:
  assumes "movers_ok a s" "never_written f s"
  shows "never_written f (sys_step a act s)"
proof (cases act)
  case (Move i r)
  with assms show ?thesis
    by (simp add: move_step_never_written)
next
  case (Stat r)
  with assms(2) show ?thesis
    by (simp add: stat_step_def split: stat_pc.split resp.split)
next
  case (Signal b)
  with assms(2) show ?thesis
    by (simp add: signal_step_def on_terminated_def split: signal_pc.split)
qed

lemma run_never_written:
  "movers_ok a s \<Longrightarrow> never_written f s \<Longrightarrow> never_written f (run a sched s)"
  by (induction sched arbitrary: s)
     (simp_all add: run_Nil run_Cons sys_step_never_written sys_step_movers_ok)

lemma init_never_written: "never_written file (init_sys a src dst file)"
  by (simp add: never_written_def init_sys_def)

text \<open>
  C5. A move thread opens the destination file with \<open>O_RDONLY\<close> and with no other flag;
  no other step gives it a descriptor. So in every run every descriptor a thread holds is
  read-only, and without a destination redis every thread that has set up and not
  returned holds one. A thread that has popped a value and stands before its \<open>write\<close>
  gets an error from it whatever the state of the disk: the step records a failed write
  and leaves the file as it was. No run contains a write that succeeded, and the file
  keeps the content it had at the start.
\<close>

theorem file_sink_writes_fail:
  "(\<forall>m \<in> set (movers (run a sched (init_sys a src dst file))).
      m_dst_fd m = None \<or> m_dst_fd m = Some O_RDONLY)
   \<and> (dst_redis a = [] \<longrightarrow>
       (\<forall>m \<in> set (movers (run a sched (init_sys a src dst file))).
          m_pc m \<noteq> AtSetup \<and> m_pc m \<noteq> Exited \<longrightarrow> m_dst_fd m = Some O_RDONLY))
   \<and> (\<forall>i v r. i < length (movers (run a sched (init_sys a src dst file)))
         \<and> m_pc (movers (run a sched (init_sys a src dst file)) ! i) = AtWrite v \<longrightarrow>
         trace (move_step a i r (run a sched (init_sys a src dst file)))
           = trace (run a sched (init_sys a src dst file)) @ [EvWrite i v False]
         \<and> file_data (move_step a i r (run a sched (init_sys a src dst file)))
           = file_data (run a sched (init_sys a src dst file)))
   \<and> (\<forall>e \<in> set (trace (run a sched (init_sys a src dst file))). \<not> ev_written e)
   \<and> file_data (run a sched (init_sys a src dst file)) = file"
proof -
  let ?s = "run a sched (init_sys a src dst file)"
  have ok: "movers_ok a ?s"
    by (simp add: run_movers_ok init_movers_ok)
  then have fd: "\<forall>m \<in> set (movers ?s). m_dst_fd m = None \<or> m_dst_fd m = Some O_RDONLY"
    by (simp add: movers_ok_def mover_ok_def)
  from ok have opened: "dst_redis a = [] \<longrightarrow>
      (\<forall>m \<in> set (movers ?s). m_pc m \<noteq> AtSetup \<and> m_pc m \<noteq> Exited \<longrightarrow> m_dst_fd m = Some O_RDONLY)"
    by (simp add: movers_ok_def mover_ok_def)
  have step: "trace (move_step a i r ?s) = trace ?s @ [EvWrite i v False]
      \<and> file_data (move_step a i r ?s) = file_data ?s"
    if "i < length (movers ?s)" "m_pc (movers ?s ! i) = AtWrite v" for i v r
  proof -
    from that(1) fd have "m_dst_fd (movers ?s ! i) = None \<or> m_dst_fd (movers ?s ! i) = Some O_RDONLY"
      by simp
    with that show ?thesis
      by (simp add: move_step_def step_write_read_only)
  qed
  have nw: "never_written file ?s"
    by (simp add: run_never_written init_movers_ok init_never_written)
  from fd opened step nw show ?thesis
    unfolding never_written_def by blast
qed

lemma file_at_write_length:
  "length (movers (run file_args (replicate 4 (Move 0 Ok)) file_init)) = 1"
  by (simp add: eval_defs)

lemma file_at_write_pc:
  "m_pc (movers (run file_args (replicate 4 (Move 0 Ok)) file_init) ! 0) = AtWrite (''c'' @ [CHR 0x0A])"
  by (simp add: eval_defs)

lemma file_at_write_trace:
  "trace (run file_args (replicate 4 (Move 0 Ok)) file_init) = [EvRpop 0 ''src:0'' (Some ''c'')]"
  by (simp add: eval_defs)

theorem file_sink_writes_fail_witness:
  "dst_redis file_args = []
   \<and> length (movers (run file_args (replicate 4 (Move 0 Ok)) file_init)) = 1
   \<and> m_pc (movers (run file_args (replicate 4 (Move 0 Ok)) file_init) ! 0) = AtWrite (''c'' @ [CHR 0x0A])
   \<and> m_dst_fd (movers (run file_args (replicate 4 (Move 0 Ok)) file_init) ! 0) = Some O_RDONLY
   \<and> trace (move_step file_args 0 Ok (run file_args (replicate 4 (Move 0 Ok)) file_init))
       = [EvRpop 0 ''src:0'' (Some ''c''), EvWrite 0 (''c'' @ [CHR 0x0A]) False]
   \<and> file_data (move_step file_args 0 Ok (run file_args (replicate 4 (Move 0 Ok)) file_init)) = []"
proof -
  let ?s = "run file_args (replicate 4 (Move 0 Ok)) file_init"
  have a: "dst_redis file_args = []"
    by (simp add: file_args_def)
  note l = file_at_write_length
  note pc = file_at_write_pc
  note inst = file_sink_writes_fail[of file_args "replicate 4 (Move 0 Ok)" scenario_src "\<lambda>k. []" "[]",
      folded file_init_def]
  from l have mem: "movers ?s ! 0 \<in> set (movers ?s)"
    by simp
  from inst a have ball: "\<forall>m \<in> set (movers ?s). m_pc m \<noteq> AtSetup \<and> m_pc m \<noteq> Exited \<longrightarrow> m_dst_fd m = Some O_RDONLY"
    by (elim conjE) (erule mp)
  from ball mem have "m_pc (movers ?s ! 0) \<noteq> AtSetup \<and> m_pc (movers ?s ! 0) \<noteq> Exited \<longrightarrow> m_dst_fd (movers ?s ! 0) = Some O_RDONLY"
    by (rule bspec)
  with pc have fd: "m_dst_fd (movers ?s ! 0) = Some O_RDONLY"
    by simp
  from inst have "\<forall>i v r. i < length (movers ?s) \<and> m_pc (movers ?s ! i) = AtWrite v \<longrightarrow>
         trace (move_step file_args i r ?s) = trace ?s @ [EvWrite i v False]
         \<and> file_data (move_step file_args i r ?s) = file_data ?s"
    by (elim conjE)
  then have "0 < length (movers ?s) \<and> m_pc (movers ?s ! 0) = AtWrite (''c'' @ [CHR 0x0A]) \<longrightarrow>
         trace (move_step file_args 0 Ok ?s) = trace ?s @ [EvWrite 0 (''c'' @ [CHR 0x0A]) False]
         \<and> file_data (move_step file_args 0 Ok ?s) = file_data ?s"
    by blast
  with l pc have st: "trace (move_step file_args 0 Ok ?s) = trace ?s @ [EvWrite 0 (''c'' @ [CHR 0x0A]) False]"
    and fl: "file_data (move_step file_args 0 Ok ?s) = file_data ?s"
    by simp_all
  from inst have "file_data ?s = []"
    by (elim conjE)
  with fl have fl': "file_data (move_step file_args 0 Ok ?s) = []"
    by simp
  from st have st': "trace (move_step file_args 0 Ok ?s) = [EvRpop 0 ''src:0'' (Some ''c''), EvWrite 0 (''c'' @ [CHR 0x0A]) False]"
    by (simp add: file_at_write_trace)
  from a l pc fd st' fl' show ?thesis
    by (intro conjI)
qed

subsection \<open>The move counter\<close>

lemma ucast_of_nat_32_64: "n < 2 ^ 32 \<Longrightarrow> (ucast (of_nat n :: 32 word) :: 64 word) = of_nat n"
  by (simp add: ucast_eq unsigned_of_nat take_bit_nat_eq_self)

lemma sum_list_update_nat:
  "i < length xs \<Longrightarrow> sum_list (xs[i := y]) = sum_list xs - xs ! i + (y::nat)"
proof -
  assume lt: "i < length xs"
  then have "xs ! i \<le> sum_list xs"
    by (simp add: member_le_sum_list)
  with lt show ?thesis
    by (simp add: sum_list_update)
qed

lemma pending_total_put:
  "i < length (movers s) \<Longrightarrow>
   pending_total (put i m' s) = pending_total s - pending (movers s ! i) + pending m'"
  by (simp add: pending_total_def put_def map_update sum_list_update_nat)

lemma pending_le_total: "i < length (movers s) \<Longrightarrow> pending (movers s ! i) \<le> pending_total s"
  by (simp add: pending_total_def member_le_sum_list)

lemma pending_total_emit [simp]: "pending_total (emit e s) = pending_total s"
  by (simp add: pending_total_def emit_def)

lemma pending_total_upd [simp]:
  "pending_total (s\<lparr>src_db := x\<rparr>) = pending_total s"
  "pending_total (s\<lparr>dst_db := y\<rparr>) = pending_total s"
  "pending_total (s\<lparr>file_data := z\<rparr>) = pending_total s"
  "pending_total (s\<lparr>g_stop := b\<rparr>) = pending_total s"
  "pending_total (s\<lparr>g_num_moved := c\<rparr>) = pending_total s"
  by (simp_all add: pending_total_def)

lemma delivered_simps [simp]:
  "delivered [] = 0"
  "delivered (e # tr) = ev_delivered e + delivered tr"
  "delivered (tr @ tr') = delivered tr + delivered tr'"
  by (simp_all add: delivered_def)

lemma counter_ok_quiet:
  assumes "counter_ok s" "i < length (movers s)" "pending (movers s ! i) = 0" "pending m' = 0"
  shows "counter_ok (put i m' s)"
  using assms by (simp add: counter_ok_def pending_total_put)

lemma step_setup_counter:
  "counter_ok s \<Longrightarrow> i < length (movers s) \<Longrightarrow> m_pc (movers s ! i) = AtSetup \<Longrightarrow>
   counter_ok (step_setup a i r (movers s ! i) s)"
  by (cases r) (simp_all add: step_setup_def counter_ok_quiet pending_def)

lemma step_while_counter:
  "counter_ok s \<Longrightarrow> i < length (movers s) \<Longrightarrow> m_pc (movers s ! i) = AtWhile \<Longrightarrow>
   counter_ok (step_while i (movers s ! i) s)"
  by (simp add: step_while_def counter_ok_quiet pending_def)

lemma step_for_counter:
  "counter_ok s \<Longrightarrow> i < length (movers s) \<Longrightarrow> m_pc (movers s ! i) = AtFor \<Longrightarrow>
   counter_ok (step_for a i (movers s ! i) s)"
  by (simp add: step_for_def counter_ok_quiet pending_def)

lemma step_rpop_counter:
  "counter_ok s \<Longrightarrow> i < length (movers s) \<Longrightarrow> m_pc (movers s ! i) = AtRpop \<Longrightarrow>
   counter_ok (step_rpop a i r (movers s ! i) s)"
  by (cases r)
     (simp_all add: step_rpop_def Let_def counter_ok_def pending_total_put pending_def
        split: option.split)

lemma step_write_counter:
  "counter_ok s \<Longrightarrow> i < length (movers s) \<Longrightarrow> mover_ok a (movers s ! i) \<Longrightarrow>
   m_pc (movers s ! i) = AtWrite v \<Longrightarrow> counter_ok (step_write i r v (movers s ! i) s)"
  by (auto simp: step_write_def counter_ok_def pending_total_put pending_def mover_ok_def
        sys_write_def)

lemma step_stop_false_counter:
  "counter_ok s \<Longrightarrow> i < length (movers s) \<Longrightarrow> m_pc (movers s ! i) = AtStopFalse \<Longrightarrow>
   counter_ok (step_stop_false i (movers s ! i) s)"
  by (simp add: step_stop_false_def counter_ok_def pending_total_put pending_def)

lemma step_empty_test_counter:
  "counter_ok s \<Longrightarrow> i < length (movers s) \<Longrightarrow> m_pc (movers s ! i) = AtEmptyTest \<Longrightarrow>
   counter_ok (step_empty_test a i (movers s ! i) s)"
  by (simp add: step_empty_test_def counter_ok_def pending_total_put pending_def)

lemma step_lpush_counter:
  assumes "counter_ok s" "i < length (movers s)" "mover_ok a (movers s ! i)"
    "m_pc (movers s ! i) = AtLpush"
  shows "counter_ok (step_lpush a i r (movers s ! i) s)"
proof -
  from assms(3,4) have conn: "m_values (movers s ! i) \<noteq> [] \<Longrightarrow> m_dst_redis (movers s ! i)"
    by (auto simp: mover_ok_def split: if_splits)
  from assms(1,2,4) conn show ?thesis
    by (cases r)
       (auto simp: step_lpush_def Let_def counter_ok_def pending_total_put pending_def)
qed

lemma step_add_counter:
  assumes "valid_args a" "counter_ok s" "i < length (movers s)" "mover_ok a (movers s ! i)"
    "m_pc (movers s ! i) = AtAdd"
  shows "counter_ok (step_add a i (movers s ! i) s)"
proof -
  let ?n = "length (m_values (movers s ! i))"
  from assms(1,4) have "int ?n \<le> 100000"
    by (simp add: mover_ok_def valid_args_def)
  then have small: "?n < 2 ^ 32" by simp
  from assms(3,5) have le: "?n \<le> pending_total s"
    using pending_le_total[of i s] by (simp add: pending_def)
  from assms(2) have p: "pending_total s \<le> delivered (trace s)"
    and c: "g_num_moved s = of_nat (delivered (trace s) - pending_total s)"
    by (simp_all add: counter_ok_def)
  have "delivered (trace s) - (pending_total s - ?n) = (delivered (trace s) - pending_total s) + ?n"
    using le p by simp
  then have "(of_nat (delivered (trace s) - (pending_total s - ?n)) :: 64 word)
      = of_nat (delivered (trace s) - pending_total s) + of_nat ?n"
    by simp
  with assms(3,5) small le p c show ?thesis
    by (simp add: step_add_def Let_def atomic8_add_def counter_ok_def pending_total_put
          pending_def ucast_of_nat_32_64)
qed

lemma move_step_counter_ok:
  assumes "valid_args a" "movers_ok a s" "counter_ok s"
  shows "counter_ok (move_step a i r s)"
proof (cases "i < length (movers s)")
  case False
  with assms show ?thesis by (simp add: move_step_def)
next
  case True
  with assms have ok: "mover_ok a (movers s ! i)"
    by (simp add: movers_ok_def)
  show ?thesis
    using assms(1,3) ok True
    by (cases "m_pc (movers s ! i)")
       (simp_all add: move_step_def step_setup_counter step_while_counter step_for_counter
          step_rpop_counter step_write_counter step_stop_false_counter step_empty_test_counter
          step_lpush_counter step_add_counter)
qed

lemma sys_step_counter_ok:
  assumes "valid_args a" "movers_ok a s" "counter_ok s"
  shows "counter_ok (sys_step a act s)"
proof (cases act)
  case (Move i r)
  with assms show ?thesis
    by (simp add: move_step_counter_ok)
next
  case (Stat r)
  with assms(3) show ?thesis
    by (simp add: stat_step_def counter_ok_def pending_total_def
          split: stat_pc.split resp.split)
next
  case (Signal b)
  with assms(3) show ?thesis
    by (simp add: signal_step_def on_terminated_def counter_ok_def pending_total_def
          split: signal_pc.split)
qed

lemma run_counter_ok:
  "valid_args a \<Longrightarrow> movers_ok a s \<Longrightarrow> counter_ok s \<Longrightarrow> counter_ok (run a sched s)"
  by (induction sched arbitrary: s)
     (simp_all add: run_Nil run_Cons sys_step_counter_ok sys_step_movers_ok)

lemma init_counter_ok: "counter_ok (init_sys a src dst file)"
  by (simp add: counter_ok_def init_sys_def pending_total_def delivered_def pending_def
        init_mover_def)

lemma nothing_delivered_put [simp]: "nothing_delivered (put i m s) = nothing_delivered s"
  by (simp add: nothing_delivered_def)

lemma nothing_delivered_emit [simp]:
  "nothing_delivered (emit e s) = (nothing_delivered s \<and> ev_delivered e = 0)"
  by (auto simp: nothing_delivered_def emit_def)

lemma nothing_delivered_upd [simp]:
  "nothing_delivered (s\<lparr>src_db := x\<rparr>) = nothing_delivered s"
  "nothing_delivered (s\<lparr>dst_db := y\<rparr>) = nothing_delivered s"
  "nothing_delivered (s\<lparr>file_data := z\<rparr>) = nothing_delivered s"
  "nothing_delivered (s\<lparr>g_stop := b\<rparr>) = nothing_delivered s"
  "nothing_delivered (s\<lparr>g_num_moved := c\<rparr>) = nothing_delivered s"
  "nothing_delivered (s\<lparr>st_pc := p\<rparr>) = nothing_delivered s"
  "nothing_delivered (s\<lparr>sg_pc := q\<rparr>) = nothing_delivered s"
  "nothing_delivered (s\<lparr>st_old_num_moved := c\<rparr>) = nothing_delivered s"
  by (simp_all add: nothing_delivered_def)

lemma nothing_delivered_zero: "nothing_delivered s \<Longrightarrow> delivered (trace s) = 0"
  by (simp add: nothing_delivered_def delivered_def)

lemma move_step_nothing_delivered:
  assumes "dst_redis a = []" "movers_ok a s" "nothing_delivered s"
  shows "nothing_delivered (move_step a i r s)"
proof (cases "i < length (movers s)")
  case False
  with assms show ?thesis by (simp add: move_step_def)
next
  case True
  with assms have ok: "mover_ok a (movers s ! i)"
    by (simp add: movers_ok_def)
  then have ro: "m_dst_fd (movers s ! i) = None \<or> m_dst_fd (movers s ! i) = Some O_RDONLY"
    by (simp add: mover_ok_def)
  from ok assms(1) have empty: "m_values (movers s ! i) = []"
    by (simp add: mover_ok_def)
  show ?thesis
  proof (cases "m_pc (movers s ! i)")
    case (AtWrite v)
    with assms(3) True ro show ?thesis
      by (simp add: move_step_def step_write_read_only)
  next
    case AtRpop
    with assms(3) True show ?thesis
      by (cases r) (simp_all add: move_step_def step_rpop_def Let_def split: option.split)
  next
    case AtLpush
    with assms(3) True empty show ?thesis
      by (simp add: move_step_def step_lpush_def Let_def)
  next
    case AtSetup
    with assms(3) True show ?thesis
      by (cases r) (simp_all add: move_step_def step_setup_def Let_def)
  qed (use assms(3) True in \<open>simp_all add: move_step_def step_while_def step_for_def
          step_stop_false_def step_empty_test_def step_add_def atomic8_add_def Let_def\<close>)
qed

lemma sys_step_nothing_delivered:
  assumes "dst_redis a = []" "movers_ok a s" "nothing_delivered s"
  shows "nothing_delivered (sys_step a act s)"
proof (cases act)
  case (Move i r)
  with assms show ?thesis
    by (simp add: move_step_nothing_delivered)
next
  case (Stat r)
  with assms(3) show ?thesis
    by (simp add: stat_step_def split: stat_pc.split resp.split)
next
  case (Signal b)
  with assms(3) show ?thesis
    by (simp add: signal_step_def on_terminated_def split: signal_pc.split)
qed

lemma run_nothing_delivered:
  "dst_redis a = [] \<Longrightarrow> movers_ok a s \<Longrightarrow> nothing_delivered s \<Longrightarrow>
   nothing_delivered (run a sched s)"
  by (induction sched arbitrary: s)
     (simp_all add: run_Nil run_Cons sys_step_nothing_delivered sys_step_movers_ok)

lemma init_nothing_delivered: "nothing_delivered (init_sys a src dst file)"
  by (simp add: nothing_delivered_def init_sys_def)

text \<open>
  C1. In every run, with any number of threads, any schedule and either destination, the
  move counter is the number of values delivered so far (the values of the pushes that
  succeeded and the lines written) less the batches that are pushed and not yet added:
  a thread adds the length of its batch in the step after its push succeeds, and nothing
  else changes the counter. So the counter never runs ahead of the deliveries, and when
  no thread stands between its push and its add and \<open>K\<close> values (fewer than \<open>2 ^ 64\<close>)
  have been delivered, the counter reads \<open>K\<close>. Without a destination redis no write to
  the file succeeds (the descriptor is read-only), nothing is delivered and the counter
  stays 0.
\<close>

theorem move_counter_counts_deliveries:
  assumes "valid_args a"
  shows "pending_total (run a sched (init_sys a src dst file))
           \<le> delivered (trace (run a sched (init_sys a src dst file)))
         \<and> g_num_moved (run a sched (init_sys a src dst file))
           = of_nat (delivered (trace (run a sched (init_sys a src dst file)))
                     - pending_total (run a sched (init_sys a src dst file)))
         \<and> (delivered (trace (run a sched (init_sys a src dst file))) < 2 ^ 64 \<longrightarrow>
            unat (g_num_moved (run a sched (init_sys a src dst file)))
              + pending_total (run a sched (init_sys a src dst file))
            = delivered (trace (run a sched (init_sys a src dst file))))
         \<and> (dst_redis a = [] \<longrightarrow>
            delivered (trace (run a sched (init_sys a src dst file))) = 0
            \<and> g_num_moved (run a sched (init_sys a src dst file)) = 0)"
proof -
  let ?s = "run a sched (init_sys a src dst file)"
  have c: "counter_ok ?s"
    using assms by (simp add: run_counter_ok init_movers_ok init_counter_ok)
  then have p: "pending_total ?s \<le> delivered (trace ?s)"
    and g: "g_num_moved ?s = of_nat (delivered (trace ?s) - pending_total ?s)"
    by (simp_all add: counter_ok_def)
  have "unat (g_num_moved ?s) + pending_total ?s = delivered (trace ?s)"
    if "delivered (trace ?s) < 2 ^ 64"
  proof -
    from that have "delivered (trace ?s) - pending_total ?s < 2 ^ 64" by simp
    then have "unat (of_nat (delivered (trace ?s) - pending_total ?s) :: 64 word)
        = delivered (trace ?s) - pending_total ?s"
      by (simp add: unat_of_nat)
    with g p show ?thesis by simp
  qed
  moreover have "delivered (trace ?s) = 0 \<and> g_num_moved ?s = 0" if "dst_redis a = []"
  proof -
    from that have "nothing_delivered ?s"
      by (simp add: run_nothing_delivered init_movers_ok init_nothing_delivered)
    then have "delivered (trace ?s) = 0"
      by (rule nothing_delivered_zero)
    with g show ?thesis by simp
  qed
  ultimately show ?thesis
    using p g by blast
qed

theorem move_counter_counts_deliveries_witness:
  "valid_args scenario_args
   \<and> delivered (trace (run scenario_args (replicate 22 (Move 0 Ok)) scenario_init)) = 3
   \<and> pending_total (run scenario_args (replicate 22 (Move 0 Ok)) scenario_init) = 0
   \<and> unat (g_num_moved (run scenario_args (replicate 22 (Move 0 Ok)) scenario_init)) = 3"
proof -
  let ?s = "run scenario_args (replicate 22 (Move 0 Ok)) scenario_init"
  have d: "delivered (trace ?s) = 3"
    by (simp add: scenario_drained_trace)
  note p = scenario_drained_pending
  note inst = move_counter_counts_deliveries[OF scenario_args_valid,
      of "replicate 22 (Move 0 Ok)" scenario_src "\<lambda>k. []" "[]", folded scenario_init_def]
  from inst have "delivered (trace ?s) < 2 ^ 64 \<longrightarrow>
      unat (g_num_moved ?s) + pending_total ?s = delivered (trace ?s)"
    by (rule conjunct2 [THEN conjunct2, THEN conjunct1])
  with d p have "unat (g_num_moved ?s) = 3"
    by simp
  with d p scenario_args_valid show ?thesis
    by (intro conjI)
qed

subsection \<open>What a thread popped is pushed or still held\<close>

lemma popped_by_simps [simp]:
  "popped_by i [] = []"
  "popped_by i (e # tr) = ev_popped i e @ popped_by i tr"
  "popped_by i (tr @ tr') = popped_by i tr @ popped_by i tr'"
  by (simp_all add: popped_by_def)

lemma pushed_by_simps [simp]:
  "pushed_by i [] = []"
  "pushed_by i (e # tr) = ev_pushed i e @ pushed_by i tr"
  "pushed_by i (tr @ tr') = pushed_by i tr @ pushed_by i tr'"
  by (simp_all add: pushed_by_def)

lemma batches_okI:
  assumes "batches_ok s" "j < length (movers s)"
    and "trace s' = trace s @ evs" "movers s' = (movers s)[j := m']"
    and "\<And>i. i \<noteq> j \<Longrightarrow> popped_by i evs = [] \<and> pushed_by i evs = []"
    and "pushed_by j (trace s) @ held (movers s ! j) @ popped_by j evs
         = pushed_by j (trace s) @ pushed_by j evs @ held m'"
  shows "batches_ok s'"
  unfolding batches_ok_def
proof (intro allI impI)
  fix i assume "i < length (movers s')"
  with assms(4) have lt: "i < length (movers s)" by simp
  with assms(1) have old: "popped_by i (trace s) = pushed_by i (trace s) @ held (movers s ! i)"
    by (simp add: batches_ok_def)
  show "popped_by i (trace s') = pushed_by i (trace s') @ held (movers s' ! i)"
  proof (cases "i = j")
    case True
    with old assms(2,3,4,6) show ?thesis by simp
  next
    case False
    with old assms(3,4,5) lt show ?thesis by simp
  qed
qed

lemma step_setup_batches:
  "batches_ok s \<Longrightarrow> j < length (movers s) \<Longrightarrow> m_pc (movers s ! j) = AtSetup \<Longrightarrow>
   batches_ok (step_setup a j r (movers s ! j) s)"
  by (cases r)
     (auto simp: step_setup_def held_def intro!: batches_okI[where evs="[]" and j=j and s=s])

lemma step_while_batches:
  "batches_ok s \<Longrightarrow> j < length (movers s) \<Longrightarrow> m_pc (movers s ! j) = AtWhile \<Longrightarrow>
   batches_ok (step_while j (movers s ! j) s)"
  by (auto simp: step_while_def held_def intro!: batches_okI[where evs="[]" and j=j and s=s])

lemma step_for_batches:
  "batches_ok s \<Longrightarrow> j < length (movers s) \<Longrightarrow> m_pc (movers s ! j) = AtFor \<Longrightarrow>
   batches_ok (step_for a j (movers s ! j) s)"
  by (auto simp: step_for_def held_def intro!: batches_okI[where evs="[]" and j=j and s=s])

lemma step_rpop_batches:
  assumes "batches_ok s" "j < length (movers s)" "m_pc (movers s ! j) = AtRpop" "dst_redis a \<noteq> []"
  shows "batches_ok (step_rpop a j r (movers s ! j) s)"
proof (cases r)
  case Err
  with assms show ?thesis
    by (auto simp: step_rpop_def held_def Let_def
          intro!: batches_okI[where evs="[EvRpopErr j (get_src_key a (int j smod queues a))]"
                    and j=j and s=s])
next
  case Ok
  show ?thesis
  proof (cases "redis_rpop (src_db s (get_src_key a (int j smod queues a)))")
    case None
    with Ok assms show ?thesis
      by (auto simp: step_rpop_def held_def Let_def
            intro!: batches_okI[where evs="[EvRpop j (get_src_key a (int j smod queues a)) None]"
                      and j=j and s=s])
  next
    case (Some p)
    obtain v rest where p: "p = (v, rest)" by (cases p)
    with Some Ok assms show ?thesis
      by (auto simp: step_rpop_def held_def Let_def
            intro!: batches_okI[where evs="[EvRpop j (get_src_key a (int j smod queues a)) (Some v)]"
                      and j=j and s=s])
  qed
qed

lemma step_empty_test_batches:
  assumes "batches_ok s" "j < length (movers s)" "m_pc (movers s ! j) = AtEmptyTest"
  shows "batches_ok (step_empty_test a j (movers s ! j) s)"
proof (cases "m_values (movers s ! j) = []")
  case True
  with assms show ?thesis
    by (auto simp: step_empty_test_def held_def
          intro!: batches_okI[where evs="[EvSleep j (retry_interval a)]" and j=j and s=s])
next
  case False
  with assms show ?thesis
    by (auto simp: step_empty_test_def held_def
          intro!: batches_okI[where evs="[]" and j=j and s=s])
qed

lemma step_lpush_batches:
  assumes "batches_ok s" "j < length (movers s)" "m_pc (movers s ! j) = AtLpush"
    "m_dst_redis (movers s ! j)"
  shows "batches_ok (step_lpush a j r (movers s ! j) s)"
proof (cases "m_values (movers s ! j) = []")
  case True
  with assms show ?thesis
    by (auto simp: step_lpush_def held_def intro!: batches_okI[where evs="[]" and j=j and s=s])
next
  case False
  show ?thesis
  proof (cases r)
    case Ok
    with False assms show ?thesis
      by (auto simp: step_lpush_def held_def Let_def
            intro!: batches_okI[where
              evs="[EvLpush j (get_dst_key a (int j smod queues a)) (m_values (movers s ! j)) True]"
              and j=j and s=s])
  next
    case Err
    with False assms show ?thesis
      by (auto simp: step_lpush_def held_def Let_def
            intro!: batches_okI[where
              evs="[EvLpush j (get_dst_key a (int j smod queues a)) (m_values (movers s ! j)) False,
                    EvSleep j (retry_interval a)]"
              and j=j and s=s and m'="movers s ! j"])
  qed
qed

lemma step_add_batches:
  "batches_ok s \<Longrightarrow> j < length (movers s) \<Longrightarrow> m_pc (movers s ! j) = AtAdd \<Longrightarrow>
   batches_ok (step_add a j (movers s ! j) s)"
  by (auto simp: step_add_def held_def Let_def atomic8_add_def
        intro!: batches_okI[where evs="[]" and j=j and s=s])

lemma move_step_batches_ok:
  assumes "dst_redis a \<noteq> []" "movers_ok a s" "batches_ok s"
  shows "batches_ok (move_step a j r s)"
proof (cases "j < length (movers s)")
  case False
  with assms show ?thesis by (simp add: move_step_def)
next
  case True
  with assms have ok: "mover_ok a (movers s ! j)"
    by (simp add: movers_ok_def)
  show ?thesis
  proof (cases "m_pc (movers s ! j)")
    case AtLpush
    with ok assms(1) have "m_dst_redis (movers s ! j)"
      by (simp add: mover_ok_def)
    with AtLpush assms(3) True show ?thesis
      by (simp add: move_step_def step_lpush_batches)
  next
    case (AtWrite v)
    with ok assms(1) show ?thesis by (simp add: mover_ok_def)
  next
    case AtStopFalse
    with ok assms(1) show ?thesis by (simp add: mover_ok_def)
  qed (use assms(1,3) True in \<open>simp_all add: move_step_def step_setup_batches step_while_batches
          step_for_batches step_rpop_batches step_empty_test_batches step_add_batches\<close>)
qed

lemma sys_step_batches_ok:
  assumes "dst_redis a \<noteq> []" "movers_ok a s" "batches_ok s"
  shows "batches_ok (sys_step a act s)"
proof (cases act)
  case (Move i r)
  with assms show ?thesis
    by (simp add: move_step_batches_ok)
next
  case (Stat r)
  with assms(3) show ?thesis
    by (simp add: stat_step_def batches_ok_def split: stat_pc.split resp.split)
next
  case (Signal b)
  with assms(3) show ?thesis
    by (simp add: signal_step_def on_terminated_def batches_ok_def split: signal_pc.split)
qed

lemma run_batches_ok:
  "dst_redis a \<noteq> [] \<Longrightarrow> movers_ok a s \<Longrightarrow> batches_ok s \<Longrightarrow> batches_ok (run a sched s)"
  by (induction sched arbitrary: s)
     (simp_all add: run_Nil run_Cons sys_step_batches_ok sys_step_movers_ok)

lemma init_batches_ok: "batches_ok (init_sys a src dst file)"
  by (simp add: batches_ok_def init_sys_def held_def init_mover_def)

subsection \<open>The push loop of one thread\<close>

lemma lpush_err_step:
  assumes "i < length (movers s)" "m_pc (movers s ! i) = AtLpush" "m_dst_redis (movers s ! i)"
    "m_values (movers s ! i) \<noteq> []"
  shows "move_step a i Err s = s\<lparr>trace := trace s @ retry_events a i (m_values (movers s ! i))\<rparr>"
  using assms by (simp add: move_step_def step_lpush_def Let_def emit_def retry_events_def)

lemma lpush_err_run:
  assumes "i < length (movers s)" "m_pc (movers s ! i) = AtLpush" "m_dst_redis (movers s ! i)"
    "m_values (movers s ! i) \<noteq> []"
  shows "run a (replicate M (Move i Err)) s
       = s\<lparr>trace := trace s @ concat (replicate M (retry_events a i (m_values (movers s ! i))))\<rparr>"
  using assms
proof (induction M arbitrary: s)
  case 0
  then show ?case by (simp add: run_Nil)
next
  case (Suc M)
  let ?s1 = "s\<lparr>trace := trace s @ retry_events a i (m_values (movers s ! i))\<rparr>"
  have "run a (replicate (Suc M) (Move i Err)) s = run a (replicate M (Move i Err)) ?s1"
    using Suc.prems by (simp add: run_Cons lpush_err_step)
  also have "\<dots> = ?s1\<lparr>trace := trace ?s1 @
      concat (replicate M (retry_events a i (m_values (movers ?s1 ! i))))\<rparr>"
    using Suc.prems by (intro Suc.IH) simp_all
  finally show ?case by simp
qed

lemma lpush_ok_step:
  assumes "i < length (movers s)" "m_pc (movers s ! i) = AtLpush" "m_dst_redis (movers s ! i)"
    "m_values (movers s ! i) \<noteq> []"
  shows "move_step a i Ok s =
     s\<lparr>dst_db := (dst_db s)(get_dst_key a (int i smod queues a) :=
           rev (m_values (movers s ! i)) @ dst_db s (get_dst_key a (int i smod queues a))),
        movers := (movers s)[i := (movers s ! i)\<lparr>m_pc := AtAdd\<rparr>],
        trace := trace s @
          [EvLpush i (get_dst_key a (int i smod queues a)) (m_values (movers s ! i)) True]\<rparr>"
  using assms
  by (simp add: move_step_def step_lpush_def Let_def emit_def put_def redis_lpush_def fold_Cons_rev)

lemma add_step:
  assumes "i < length (movers s)" "m_pc (movers s ! i) = AtAdd"
    "length (m_values (movers s ! i)) < 2 ^ 32"
  shows "move_step a i r s =
     s\<lparr>g_num_moved := g_num_moved s + of_nat (length (m_values (movers s ! i))),
        movers := (movers s)[i := (movers s ! i)\<lparr>
          m_num_moved := m_num_moved (movers s ! i) + of_nat (length (m_values (movers s ! i))),
          m_old_num_moved :=
            (if m_num_moved (movers s ! i) + of_nat (length (m_values (movers s ! i)))
                  - m_old_num_moved (movers s ! i) \<ge> of_int (tick a)
             then m_num_moved (movers s ! i) + of_nat (length (m_values (movers s ! i)))
             else m_old_num_moved (movers s ! i)),
          m_pc := AtWhile\<rparr>]\<rparr>"
  using assms
  by (simp add: move_step_def step_add_def Let_def put_def atomic8_add_def ucast_of_nat_32_64)

lemma while_stop_step:
  assumes "i < length (movers s)" "m_pc (movers s ! i) = AtWhile" "g_stop s"
  shows "move_step a i r s
       = s\<lparr>movers := (movers s)[i := (movers s ! i)\<lparr>m_dst_fd := None, m_pc := Exited\<rparr>]\<rparr>"
  using assms by (simp add: move_step_def step_while_def put_def)

lemma exited_step:
  "i < length (movers s) \<Longrightarrow> m_pc (movers s ! i) = Exited \<Longrightarrow> move_step a i r s = s"
  by (simp add: move_step_def)

lemma push_loop_run:
  fixes a :: args and M :: nat and r :: resp and i :: nat and s :: sys
  assumes "i < length (movers s)" "m_pc (movers s ! i) = AtLpush" "m_dst_redis (movers s ! i)"
    "m_values (movers s ! i) = vs" "vs \<noteq> []" "length vs < 2 ^ 32"
  defines "s' \<equiv> run a (replicate M (Move i Err) @ [Move i Ok, Move i r]) s"
    and "dst_key \<equiv> get_dst_key a (int i smod queues a)"
  shows "m_pc (movers s' ! i) = AtWhile"
    and "dst_db s' = (dst_db s)(dst_key := rev vs @ dst_db s dst_key)"
    and "src_db s' = src_db s"
    and "g_num_moved s' = g_num_moved s + of_nat (length vs)"
    and "trace s' = trace s @ concat (replicate M (retry_events a i vs)) @ [EvLpush i dst_key vs True]"
    and "g_stop s' = g_stop s"
    and "length (movers s') = length (movers s)"
    and "file_data s' = file_data s"
proof -
  define s1 where "s1 = run a (replicate M (Move i Err)) s"
  define s2 where "s2 = move_step a i Ok s1"
  have s1: "s1 = s\<lparr>trace := trace s @ concat (replicate M (retry_events a i vs))\<rparr>"
    unfolding s1_def using assms(1-5) lpush_err_run[of i s a M] by simp
  have s2: "s2 = s1\<lparr>dst_db := (dst_db s1)(dst_key := rev vs @ dst_db s1 dst_key),
        movers := (movers s1)[i := (movers s1 ! i)\<lparr>m_pc := AtAdd\<rparr>],
        trace := trace s1 @ [EvLpush i dst_key vs True]\<rparr>"
    unfolding s2_def dst_key_def using assms(1-5) s1 lpush_ok_step[of i s1 a] by simp
  have s': "s' = move_step a i r s2"
    by (simp add: s'_def s2_def s1_def run_append run_Cons run_Nil)
  have add: "move_step a i r s2 =
     s2\<lparr>g_num_moved := g_num_moved s2 + of_nat (length (m_values (movers s2 ! i))),
        movers := (movers s2)[i := (movers s2 ! i)\<lparr>
          m_num_moved := m_num_moved (movers s2 ! i) + of_nat (length (m_values (movers s2 ! i))),
          m_old_num_moved :=
            (if m_num_moved (movers s2 ! i) + of_nat (length (m_values (movers s2 ! i)))
                  - m_old_num_moved (movers s2 ! i) \<ge> of_int (tick a)
             then m_num_moved (movers s2 ! i) + of_nat (length (m_values (movers s2 ! i)))
             else m_old_num_moved (movers s2 ! i)),
          m_pc := AtWhile\<rparr>]\<rparr>"
    using assms(1,4,6) by (intro add_step) (simp_all add: s2 s1)
  show "m_pc (movers s' ! i) = AtWhile"
    unfolding s' add using assms(1) by (simp add: s2 s1)
  show "dst_db s' = (dst_db s)(dst_key := rev vs @ dst_db s dst_key)"
    unfolding s' add by (simp add: s2 s1)
  show "src_db s' = src_db s"
    unfolding s' add by (simp add: s2 s1)
  show "g_num_moved s' = g_num_moved s + of_nat (length vs)"
    unfolding s' add using assms(1,4) by (simp add: s2 s1)
  show "trace s' = trace s @ concat (replicate M (retry_events a i vs)) @ [EvLpush i dst_key vs True]"
    unfolding s' add by (simp add: s2 s1)
  show "g_stop s' = g_stop s"
    unfolding s' add by (simp add: s2 s1)
  show "length (movers s') = length (movers s)"
    unfolding s' add by (simp add: s2 s1)
  show "file_data s' = file_data s"
    unfolding s' add by (simp add: s2 s1)
qed

lemma retry_events_quiet [simp]:
  "pushed_by j (concat (replicate M (retry_events a i vs))) = []"
  "popped_by j (concat (replicate M (retry_events a i vs))) = []"
  "delivered (concat (replicate M (retry_events a i vs))) = 0"
  by (induction M) (simp_all add: retry_events_def)

lemma push_then_exit_run:
  fixes a :: args and M :: nat and i :: nat and s :: sys
  assumes "i < length (movers s)" "m_pc (movers s ! i) = AtLpush" "m_dst_redis (movers s ! i)"
    "m_values (movers s ! i) = vs" "vs \<noteq> []" "length vs < 2 ^ 32" "g_stop s"
  defines "s' \<equiv> run a (replicate M (Move i Err) @ [Move i Ok, Move i Ok, Move i Ok]) s"
    and "dst_key \<equiv> get_dst_key a (int i smod queues a)"
  shows "m_pc (movers s' ! i) = Exited"
    and "dst_db s' = (dst_db s)(dst_key := rev vs @ dst_db s dst_key)"
    and "g_num_moved s' = g_num_moved s + of_nat (length vs)"
    and "trace s' = trace s @ concat (replicate M (retry_events a i vs)) @ [EvLpush i dst_key vs True]"
    and "i < length (movers s')"
proof -
  define t where "t = run a (replicate M (Move i Err) @ [Move i Ok, Move i Ok]) s"
  note loop = push_loop_run[OF assms(1-6), of a M Ok, folded t_def dst_key_def]
  have "replicate M (Move i Err) @ [Move i Ok, Move i Ok, Move i Ok]
      = (replicate M (Move i Err) @ [Move i Ok, Move i Ok]) @ [Move i Ok]"
    by simp
  then have "s' = move_step a i Ok t"
    unfolding s'_def t_def by (simp only: run_append run_Cons run_Nil sys_step.simps)
  moreover have "i < length (movers t)" "m_pc (movers t ! i) = AtWhile" "g_stop t"
    using loop assms(1,7) by simp_all
  ultimately have s': "s' = t\<lparr>movers := (movers t)[i := (movers t ! i)\<lparr>m_dst_fd := None, m_pc := Exited\<rparr>]\<rparr>"
    by (simp add: while_stop_step)
  show "m_pc (movers s' ! i) = Exited"
    unfolding s' using loop(7) assms(1) by simp
  show "dst_db s' = (dst_db s)(dst_key := rev vs @ dst_db s dst_key)"
    unfolding s' using loop(2) by simp
  show "g_num_moved s' = g_num_moved s + of_nat (length vs)"
    unfolding s' using loop(4) by simp
  show "trace s' = trace s @ concat (replicate M (retry_events a i vs)) @ [EvLpush i dst_key vs True]"
    unfolding s' using loop(5) by simp
  show "i < length (movers s')"
    unfolding s' using loop(7) assms(1) by simp
qed

lemma leave_for_run:
  assumes "i < length (movers s)" "m_pc (movers s ! i) = AtFor" "g_stop s"
    "m_values (movers s ! i) \<noteq> []"
  shows "run a [Move i Ok, Move i Ok] s
       = s\<lparr>movers := (movers s)[i := (movers s ! i)\<lparr>m_pc := AtLpush\<rparr>]\<rparr>"
  using assms
  by (simp add: run_Cons run_Nil move_step_def step_for_def step_empty_test_def put_def)

lemma stopped_mid_batch_eval:
  "movers stopped_mid_batch =
     [\<lparr>m_pc = AtFor, m_values = [''c''], m_k = 1, m_dst_redis = True, m_dst_fd = None,
       m_num_moved = 0, m_old_num_moved = 0\<rparr>]"
  "g_stop stopped_mid_batch"
  "trace stopped_mid_batch = [EvRpop 0 ''src:0'' (Some ''c'')]"
  "dst_db stopped_mid_batch ''dst:0'' = []"
  "g_num_moved stopped_mid_batch = 0"
  by (simp_all add: stopped_mid_batch_def eval_defs)

lemma stopped_in_push_loop_eval:
  "movers stopped_in_push_loop =
     [\<lparr>m_pc = AtLpush, m_values = [''c''], m_k = 1, m_dst_redis = True, m_dst_fd = None,
       m_num_moved = 0, m_old_num_moved = 0\<rparr>]"
  "g_stop stopped_in_push_loop"
  "trace stopped_in_push_loop = [EvRpop 0 ''src:0'' (Some ''c'')]"
  "dst_db stopped_in_push_loop ''dst:0'' = []"
  "g_num_moved stopped_in_push_loop = 0"
  by (simp_all add: stopped_in_push_loop_def stopped_mid_batch_def eval_defs)

lemma scenario_dst_key: "get_dst_key scenario_args (int 0 smod queues scenario_args) = ''dst:0''"
  by (simp add: eval_defs)

text \<open>
  C6. A thread stands in its push loop with a batch \<open>vs\<close> (not empty; a batch holds at
  most \<open>batch\<close> values, so fewer than \<open>2 ^ 32\<close>). If its push fails \<open>M\<close> times and then
  succeeds, for any \<open>M\<close>, the destination list has received the batch once (the values
  of \<open>vs\<close> put at its head one after the other), the source is untouched and nothing was
  popped again, the trace holds the \<open>M\<close> failed pushes, each followed by a sleep, and one
  successful push of \<open>vs\<close>, and the move counter has grown by the length of \<open>vs\<close>, once.
\<close>

theorem retry_convergence:
  assumes "i < length (movers s)" and "m_pc (movers s ! i) = AtLpush"
    and "m_dst_redis (movers s ! i)" and "m_values (movers s ! i) = vs"
    and "vs \<noteq> []" and "length vs < 2 ^ 32"
  shows "dst_db (run a (replicate M (Move i Err) @ [Move i Ok, Move i Ok]) s)
           = (dst_db s)(get_dst_key a (int i smod queues a) :=
                rev vs @ dst_db s (get_dst_key a (int i smod queues a)))
       \<and> src_db (run a (replicate M (Move i Err) @ [Move i Ok, Move i Ok]) s) = src_db s
       \<and> g_num_moved (run a (replicate M (Move i Err) @ [Move i Ok, Move i Ok]) s)
           = g_num_moved s + of_nat (length vs)
       \<and> trace (run a (replicate M (Move i Err) @ [Move i Ok, Move i Ok]) s)
           = trace s @ concat (replicate M (retry_events a i vs))
               @ [EvLpush i (get_dst_key a (int i smod queues a)) vs True]
       \<and> pushed_by i (trace (run a (replicate M (Move i Err) @ [Move i Ok, Move i Ok]) s))
           = pushed_by i (trace s) @ vs
       \<and> popped_by i (trace (run a (replicate M (Move i Err) @ [Move i Ok, Move i Ok]) s))
           = popped_by i (trace s)
       \<and> delivered (trace (run a (replicate M (Move i Err) @ [Move i Ok, Move i Ok]) s))
           = delivered (trace s) + length vs
       \<and> m_pc (movers (run a (replicate M (Move i Err) @ [Move i Ok, Move i Ok]) s) ! i) = AtWhile"
proof -
  note loop = push_loop_run[OF assms, of a M Ok]
  from loop(5) have
    "pushed_by i (trace (run a (replicate M (Move i Err) @ [Move i Ok, Move i Ok]) s))
       = pushed_by i (trace s) @ vs"
    "popped_by i (trace (run a (replicate M (Move i Err) @ [Move i Ok, Move i Ok]) s))
       = popped_by i (trace s)"
    "delivered (trace (run a (replicate M (Move i Err) @ [Move i Ok, Move i Ok]) s))
       = delivered (trace s) + length vs"
    by simp_all
  with loop(1-5) show ?thesis
    by (intro conjI)
qed

theorem retry_convergence_witness:
  "0 < length (movers stopped_in_push_loop)
   \<and> m_pc (movers stopped_in_push_loop ! 0) = AtLpush
   \<and> m_dst_redis (movers stopped_in_push_loop ! 0)
   \<and> m_values (movers stopped_in_push_loop ! 0) = [''c'']
   \<and> dst_db (run scenario_args (replicate 2 (Move 0 Err) @ [Move 0 Ok, Move 0 Ok])
        stopped_in_push_loop) ''dst:0'' = [''c'']
   \<and> g_num_moved (run scenario_args (replicate 2 (Move 0 Err) @ [Move 0 Ok, Move 0 Ok])
        stopped_in_push_loop) = 1"
proof -
  have h: "0 < length (movers stopped_in_push_loop)"
    "m_pc (movers stopped_in_push_loop ! 0) = AtLpush"
    "m_dst_redis (movers stopped_in_push_loop ! 0)"
    "m_values (movers stopped_in_push_loop ! 0) = [''c'']"
    by (simp_all add: stopped_in_push_loop_eval)
  have ne: "[''c''] \<noteq> []" and small: "length [''c''] < (2::nat) ^ 32"
    by simp_all
  note inst = retry_convergence[OF h ne small, of scenario_args 2]
  from inst have "dst_db (run scenario_args (replicate 2 (Move 0 Err) @ [Move 0 Ok, Move 0 Ok])
        stopped_in_push_loop) ''dst:0'' = [''c'']"
    using scenario_dst_key by (simp add: stopped_in_push_loop_eval)
  moreover from inst have "g_num_moved (run scenario_args
        (replicate 2 (Move 0 Err) @ [Move 0 Ok, Move 0 Ok]) stopped_in_push_loop) = 1"
    by (simp add: stopped_in_push_loop_eval)
  ultimately show ?thesis
    using h by (intro conjI)
qed

text \<open>
  C4, as the spec states it: the push loop ends as soon as the push succeeds or the
  shutdown flag is set, and after the flag is set the thread stops retrying within a
  bounded number of sleeps. It does not: here the flag is set, the thread stands in its
  push loop with the batch \<open>c\<close>, and three more pushes that fail leave it in the loop,
  each push made after the flag was set and each followed by a sleep.
\<close>

theorem push_retry_after_stop_counterexample:
  "g_stop stopped_in_push_loop
   \<and> m_pc (movers stopped_in_push_loop ! 0) = AtLpush
   \<and> g_stop (run scenario_args (replicate 3 (Move 0 Err)) stopped_in_push_loop)
   \<and> m_pc (movers (run scenario_args (replicate 3 (Move 0 Err)) stopped_in_push_loop) ! 0) = AtLpush
   \<and> trace (run scenario_args (replicate 3 (Move 0 Err)) stopped_in_push_loop)
       = trace stopped_in_push_loop
         @ [EvLpush 0 ''dst:0'' [''c''] False, EvSleep 0 100,
            EvLpush 0 ''dst:0'' [''c''] False, EvSleep 0 100,
            EvLpush 0 ''dst:0'' [''c''] False, EvSleep 0 100]"
  by (simp add: stopped_in_push_loop_def stopped_mid_batch_def eval_defs)

text \<open>
  C4, amended. The push loop does not read the shutdown flag: it ends when the push
  succeeds, and only then. A thread in the loop with a batch \<open>vs\<close> whose push fails
  \<open>M\<close> times is still in the loop, for every \<open>M\<close> and whether the flag is set or not,
  and has made \<open>M\<close> pushes, each followed by a sleep. When the push then succeeds the
  thread adds to the counter and is back at the test of its outer loop. If the flag is
  set, the next step takes it out of the loop, and a thread that has returned takes no
  further step: no store call follows.
\<close>

theorem push_retry_ends_only_on_success:
  assumes "i < length (movers s)" and "m_pc (movers s ! i) = AtLpush"
    and "m_dst_redis (movers s ! i)" and "m_values (movers s ! i) = vs"
    and "vs \<noteq> []" and "length vs < 2 ^ 32"
  shows "m_pc (movers (run a (replicate M (Move i Err)) s) ! i) = AtLpush
       \<and> g_stop (run a (replicate M (Move i Err)) s) = g_stop s
       \<and> trace (run a (replicate M (Move i Err)) s)
           = trace s @ concat (replicate M (retry_events a i vs))
       \<and> m_pc (movers (run a (replicate M (Move i Err) @ [Move i Ok, Move i Ok]) s) ! i) = AtWhile
       \<and> (g_stop s \<longrightarrow>
            m_pc (movers (run a (replicate M (Move i Err) @ [Move i Ok, Move i Ok, Move i Ok]) s) ! i)
              = Exited
            \<and> (\<forall>r. move_step a i r
                     (run a (replicate M (Move i Err) @ [Move i Ok, Move i Ok, Move i Ok]) s)
                   = run a (replicate M (Move i Err) @ [Move i Ok, Move i Ok, Move i Ok]) s))"
proof -
  have errs: "run a (replicate M (Move i Err)) s
      = s\<lparr>trace := trace s @ concat (replicate M (retry_events a i vs))\<rparr>"
    using assms(1-5) lpush_err_run[of i s a M] by simp
  note loop = push_loop_run[OF assms, of a M Ok]
  have stop: "m_pc (movers (run a (replicate M (Move i Err) @ [Move i Ok, Move i Ok, Move i Ok]) s) ! i)
        = Exited
      \<and> (\<forall>r. move_step a i r
               (run a (replicate M (Move i Err) @ [Move i Ok, Move i Ok, Move i Ok]) s)
             = run a (replicate M (Move i Err) @ [Move i Ok, Move i Ok, Move i Ok]) s)"
    if "g_stop s"
  proof -
    note out = push_then_exit_run[OF assms that, of a M]
    from out(1,5) show ?thesis
      by (simp add: exited_step)
  qed
  from errs assms(2) loop(1) stop show ?thesis
    by simp
qed

theorem push_retry_ends_only_on_success_witness:
  "0 < length (movers stopped_in_push_loop)
   \<and> m_pc (movers stopped_in_push_loop ! 0) = AtLpush
   \<and> m_dst_redis (movers stopped_in_push_loop ! 0)
   \<and> m_values (movers stopped_in_push_loop ! 0) = [''c'']
   \<and> g_stop stopped_in_push_loop
   \<and> m_pc (movers (run scenario_args (replicate 5 (Move 0 Err)) stopped_in_push_loop) ! 0) = AtLpush
   \<and> m_pc (movers (run scenario_args (replicate 5 (Move 0 Err) @ [Move 0 Ok, Move 0 Ok, Move 0 Ok])
        stopped_in_push_loop) ! 0) = Exited"
proof -
  have h: "0 < length (movers stopped_in_push_loop)"
    "m_pc (movers stopped_in_push_loop ! 0) = AtLpush"
    "m_dst_redis (movers stopped_in_push_loop ! 0)"
    "m_values (movers stopped_in_push_loop ! 0) = [''c'']"
    by (simp_all add: stopped_in_push_loop_eval)
  have ne: "[''c''] \<noteq> []" and small: "length [''c''] < (2::nat) ^ 32"
    by simp_all
  note stopped = stopped_in_push_loop_eval(2)
  note inst = push_retry_ends_only_on_success[OF h ne small, of scenario_args 5]
  from inst have "m_pc (movers (run scenario_args (replicate 5 (Move 0 Err)) stopped_in_push_loop) ! 0)
      = AtLpush"
    by (rule conjunct1)
  moreover from inst stopped have "m_pc (movers (run scenario_args
      (replicate 5 (Move 0 Err) @ [Move 0 Ok, Move 0 Ok, Move 0 Ok]) stopped_in_push_loop) ! 0) = Exited"
    by blast
  ultimately show ?thesis
    using h stopped by (intro conjI)
qed

text \<open>
  C10. With a destination redis, in every run and for every thread, the values the thread
  has popped are the values it has pushed, in order, followed by the batch it still holds;
  so a thread that has returned has pushed every value it popped. In particular, when the
  shutdown flag is set while a thread is in its for loop with a batch \<open>vs\<close> that is not
  empty, the thread leaves the for loop, pushes \<open>vs\<close> (retrying while the push fails,
  \<open>M\<close> times for any \<open>M\<close>), adds the length of \<open>vs\<close> to the move counter, and only
  then leaves its outer loop.
\<close>

theorem shutdown_delivers_partial_batch:
  assumes "valid_args a" and "dst_redis a \<noteq> []"
    and "s = run a sched (init_sys a src dst file)" and "i < length (movers s)"
  shows "popped_by i (trace s) = pushed_by i (trace s) @ held (movers s ! i)
       \<and> (m_pc (movers s ! i) = Exited \<longrightarrow> popped_by i (trace s) = pushed_by i (trace s))
       \<and> (g_stop s \<and> m_pc (movers s ! i) = AtFor \<and> m_values (movers s ! i) \<noteq> [] \<longrightarrow>
            m_pc (movers (run a ([Move i Ok, Move i Ok] @ replicate M (Move i Err)
                    @ [Move i Ok, Move i Ok, Move i Ok]) s) ! i) = Exited
            \<and> dst_db (run a ([Move i Ok, Move i Ok] @ replicate M (Move i Err)
                    @ [Move i Ok, Move i Ok, Move i Ok]) s)
                = (dst_db s)(get_dst_key a (int i smod queues a) :=
                     rev (m_values (movers s ! i)) @ dst_db s (get_dst_key a (int i smod queues a)))
            \<and> g_num_moved (run a ([Move i Ok, Move i Ok] @ replicate M (Move i Err)
                    @ [Move i Ok, Move i Ok, Move i Ok]) s)
                = g_num_moved s + of_nat (length (m_values (movers s ! i)))
            \<and> pushed_by i (trace (run a ([Move i Ok, Move i Ok] @ replicate M (Move i Err)
                    @ [Move i Ok, Move i Ok, Move i Ok]) s))
                = popped_by i (trace s))"
proof -
  have ok: "movers_ok a s"
    unfolding assms(3) by (simp add: run_movers_ok init_movers_ok)
  have "batches_ok s"
    unfolding assms(3) using assms(2)
    by (simp add: run_batches_ok init_movers_ok init_batches_ok)
  with assms(4) have inv: "popped_by i (trace s) = pushed_by i (trace s) @ held (movers s ! i)"
    by (simp add: batches_ok_def)
  then have exited: "m_pc (movers s ! i) = Exited \<longrightarrow> popped_by i (trace s) = pushed_by i (trace s)"
    by (simp add: held_def)
  let ?sched = "[Move i Ok, Move i Ok] @ replicate M (Move i Err) @ [Move i Ok, Move i Ok, Move i Ok]"
  let ?key = "get_dst_key a (int i smod queues a)"
  have stop: "m_pc (movers (run a ?sched s) ! i) = Exited
      \<and> dst_db (run a ?sched s) = (dst_db s)(?key := rev (m_values (movers s ! i)) @ dst_db s ?key)
      \<and> g_num_moved (run a ?sched s) = g_num_moved s + of_nat (length (m_values (movers s ! i)))
      \<and> pushed_by i (trace (run a ?sched s)) = popped_by i (trace s)"
    if "g_stop s" "m_pc (movers s ! i) = AtFor" "m_values (movers s ! i) \<noteq> []"
  proof -
    from ok assms(4) have m: "mover_ok a (movers s ! i)"
      by (simp add: movers_ok_def)
    with assms(2) that(2) have conn: "m_dst_redis (movers s ! i)"
      by (simp add: mover_ok_def)
    from m assms(1) have "int (length (m_values (movers s ! i))) \<le> 100000"
      by (simp add: mover_ok_def valid_args_def)
    then have small: "length (m_values (movers s ! i)) < 2 ^ 32"
      by simp
    define t where "t = run a [Move i Ok, Move i Ok] s"
    have t: "t = s\<lparr>movers := (movers s)[i := (movers s ! i)\<lparr>m_pc := AtLpush\<rparr>]\<rparr>"
      unfolding t_def using assms(4) that(2) that(1) that(3) by (rule leave_for_run)
    have pre: "i < length (movers t)" "m_pc (movers t ! i) = AtLpush" "m_dst_redis (movers t ! i)"
      "m_values (movers t ! i) = m_values (movers s ! i)" "g_stop t"
      using assms(4) conn that(1) by (simp_all add: t)
    note out = push_then_exit_run[OF pre(1-4) that(3) small pre(5), of a M]
    have split: "run a ?sched s
        = run a (replicate M (Move i Err) @ [Move i Ok, Move i Ok, Move i Ok]) t"
      unfolding t_def by (simp only: run_append)
    from inv that(2) have "popped_by i (trace s) = pushed_by i (trace s) @ m_values (movers s ! i)"
      by (simp add: held_def)
    with out(1-4) show ?thesis
      unfolding split by (simp add: t)
  qed
  from inv exited stop show ?thesis
    by blast
qed

theorem shutdown_delivers_partial_batch_witness:
  "valid_args scenario_args \<and> dst_redis scenario_args \<noteq> []
   \<and> 0 < length (movers stopped_mid_batch)
   \<and> g_stop stopped_mid_batch \<and> m_pc (movers stopped_mid_batch ! 0) = AtFor
   \<and> m_values (movers stopped_mid_batch ! 0) = [''c'']
   \<and> popped_by 0 (trace stopped_mid_batch) = [''c'']
   \<and> m_pc (movers (run scenario_args ([Move 0 Ok, Move 0 Ok] @ replicate 1 (Move 0 Err)
        @ [Move 0 Ok, Move 0 Ok, Move 0 Ok]) stopped_mid_batch) ! 0) = Exited
   \<and> pushed_by 0 (trace (run scenario_args ([Move 0 Ok, Move 0 Ok] @ replicate 1 (Move 0 Err)
        @ [Move 0 Ok, Move 0 Ok, Move 0 Ok]) stopped_mid_batch)) = [''c'']
   \<and> g_num_moved (run scenario_args ([Move 0 Ok, Move 0 Ok] @ replicate 1 (Move 0 Err)
        @ [Move 0 Ok, Move 0 Ok, Move 0 Ok]) stopped_mid_batch) = 1"
proof -
  have redis: "dst_redis scenario_args \<noteq> []"
    by (simp add: scenario_args_def)
  have reach: "stopped_mid_batch
      = run scenario_args [Move 0 Ok, Move 0 Ok, Move 0 Ok, Move 0 Ok, Signal False, Signal True]
          (init_sys scenario_args scenario_src (\<lambda>k. []) [])"
    by (simp add: stopped_mid_batch_def scenario_init_def)
  have h: "0 < length (movers stopped_mid_batch)" "g_stop stopped_mid_batch"
    "m_pc (movers stopped_mid_batch ! 0) = AtFor" "m_values (movers stopped_mid_batch ! 0) = [''c'']"
    by (simp_all add: stopped_mid_batch_eval)
  have popped: "popped_by 0 (trace stopped_mid_batch) = [''c'']"
    by (simp add: stopped_mid_batch_eval)
  note inst = shutdown_delivers_partial_batch[OF scenario_args_valid redis reach h(1), of 1]
  from h have "g_stop stopped_mid_batch \<and> m_pc (movers stopped_mid_batch ! 0) = AtFor
      \<and> m_values (movers stopped_mid_batch ! 0) \<noteq> []"
    by simp
  with inst have
    "m_pc (movers (run scenario_args ([Move 0 Ok, Move 0 Ok] @ replicate 1 (Move 0 Err)
        @ [Move 0 Ok, Move 0 Ok, Move 0 Ok]) stopped_mid_batch) ! 0) = Exited"
    "pushed_by 0 (trace (run scenario_args ([Move 0 Ok, Move 0 Ok] @ replicate 1 (Move 0 Err)
        @ [Move 0 Ok, Move 0 Ok, Move 0 Ok]) stopped_mid_batch)) = popped_by 0 (trace stopped_mid_batch)"
    "g_num_moved (run scenario_args ([Move 0 Ok, Move 0 Ok] @ replicate 1 (Move 0 Err)
        @ [Move 0 Ok, Move 0 Ok, Move 0 Ok]) stopped_mid_batch)
      = g_num_moved stopped_mid_batch + of_nat (length (m_values (movers stopped_mid_batch ! 0)))"
    by blast+
  then show ?thesis
    using scenario_args_valid redis h popped by (simp add: stopped_mid_batch_eval)
qed

subsection \<open>The concrete scenario\<close>

text \<open>
  C7. One queue, one thread, batches of two; the source list holds \<open>a\<close>, \<open>b\<close>, \<open>c\<close>
  (head first), so the pops take \<open>c\<close>, \<open>b\<close>, \<open>a\<close>. The thread runs until the source is
  empty and it has slept once. It pops \<open>c\<close> and \<open>b\<close> and pushes the batch \<open>c\<close>, \<open>b\<close>; it
  pops \<open>a\<close>, finds the source empty and pushes the batch \<open>a\<close>. The destination queue then
  gives \<open>c\<close>, \<open>b\<close>, \<open>a\<close> to the pops of a reader, front first (as a redis list, head
  first, it is \<open>a\<close>, \<open>b\<close>, \<open>c\<close>, the list the source was), and the move counter is 3.
\<close>

theorem scenario_drain:
  "queues scenario_args = 1 \<and> threads scenario_args = 1 \<and> batch scenario_args = 2
   \<and> scenario_src ''src:0'' = [''a'', ''b'', ''c'']
   \<and> pop_order 3 (scenario_src ''src:0'') = [''c'', ''b'', ''a'']
   \<and> trace (run scenario_args (replicate 22 (Move 0 Ok)) scenario_init) =
       [EvRpop 0 ''src:0'' (Some ''c''), EvRpop 0 ''src:0'' (Some ''b''),
        EvLpush 0 ''dst:0'' [''c'', ''b''] True,
        EvRpop 0 ''src:0'' (Some ''a''), EvRpop 0 ''src:0'' None,
        EvLpush 0 ''dst:0'' [''a''] True,
        EvRpop 0 ''src:0'' None, EvSleep 0 100]
   \<and> src_db (run scenario_args (replicate 22 (Move 0 Ok)) scenario_init) ''src:0'' = []
   \<and> dst_db (run scenario_args (replicate 22 (Move 0 Ok)) scenario_init) ''dst:0''
       = [''a'', ''b'', ''c'']
   \<and> pop_order 3 (dst_db (run scenario_args (replicate 22 (Move 0 Ok)) scenario_init) ''dst:0'')
       = [''c'', ''b'', ''a'']
   \<and> g_num_moved (run scenario_args (replicate 22 (Move 0 Ok)) scenario_init) = 3"
proof -
  have dst: "dst_db (run scenario_args (replicate 22 (Move 0 Ok)) scenario_init) ''dst:0''
      = [''a'', ''b'', ''c'']"
    by (simp add: eval_defs)
  have src: "src_db (run scenario_args (replicate 22 (Move 0 Ok)) scenario_init) ''src:0'' = []"
    by (simp add: eval_defs)
  have cnt: "g_num_moved (run scenario_args (replicate 22 (Move 0 Ok)) scenario_init) = 3"
    by (simp add: eval_defs)
  have pops: "pop_order 3 [''a'', ''b'', ''c''] = [''c'', ''b'', ''a'']"
    by (simp add: numeral_3_eq_3 redis_rpop_def)
  have args: "queues scenario_args = 1" "threads scenario_args = 1" "batch scenario_args = 2"
    "scenario_src ''src:0'' = [''a'', ''b'', ''c'']"
    by (simp_all add: scenario_args_def scenario_src_def)
  from args pops dst src cnt scenario_drained_trace show ?thesis
    by simp
qed

subsection \<open>A write to the destination file that fails\<close>

text \<open>
  C2, on the code: without a destination redis the thread pops \<open>c\<close>, its write fails, it
  stores false in \<open>g_stop\<close>, sleeps, and goes round its loop again: it pops \<open>b\<close> and
  tries to write it. After the failed write the thread has not returned.
\<close>

theorem write_failure_worker_continues:
  "trace (run file_args (replicate 11 (Move 0 Ok)) file_init) =
     [EvRpop 0 ''src:0'' (Some ''c''), EvWrite 0 (''c'' @ [CHR 0x0A]) False, EvSleep 0 100,
      EvRpop 0 ''src:0'' (Some ''b''), EvWrite 0 (''b'' @ [CHR 0x0A]) False]
   \<and> m_pc (movers (run file_args (replicate 11 (Move 0 Ok)) file_init) ! 0) = AtStopFalse
   \<and> src_db (run file_args (replicate 11 (Move 0 Ok)) file_init) ''src:0'' = [''a'']
   \<and> g_stop (run file_args (replicate 11 (Move 0 Ok)) file_init) = False"
  by (simp add: eval_defs)

text \<open>
  C3, on the code: the thread has popped \<open>c\<close> and stands before its write when the signal
  thread receives a termination signal and sets \<open>g_stop\<close>. The write fails and the thread
  stores false in \<open>g_stop\<close>: the flag, once set, is false again.
\<close>

theorem stop_flag_reverts:
  "g_stop file_init = False
   \<and> g_stop (run file_args
        [Move 0 Ok, Move 0 Ok, Move 0 Ok, Move 0 Ok, Signal False, Signal True] file_init) = True
   \<and> m_pc (movers (run file_args
        [Move 0 Ok, Move 0 Ok, Move 0 Ok, Move 0 Ok, Signal False, Signal True] file_init) ! 0)
       = AtWrite (''c'' @ [CHR 0x0A])
   \<and> g_stop (run file_args
        [Move 0 Ok, Move 0 Ok, Move 0 Ok, Move 0 Ok, Signal False, Signal True,
         Move 0 Ok, Move 0 Ok] file_init) = False"
  by (simp add: eval_defs)

text \<open>
  C8, on the code: without a destination redis the thread pops \<open>c\<close>, its write fails, and
  since \<open>values\<close> is never filled in this variant the test \<open>values.empty()\<close> holds: the
  thread sleeps after an iteration in which it popped a value.
\<close>

theorem file_worker_sleeps_after_pop:
  "trace (run file_args (replicate 7 (Move 0 Ok)) file_init) =
     [EvRpop 0 ''src:0'' (Some ''c''), EvWrite 0 (''c'' @ [CHR 0x0A]) False, EvSleep 0 100]
   \<and> m_values (movers (run file_args (replicate 6 (Move 0 Ok)) file_init) ! 0) = []
   \<and> m_pc (movers (run file_args (replicate 6 (Move 0 Ok)) file_init) ! 0) = AtEmptyTest"
  by (simp add: eval_defs)

end
